theory Spec2Isabelle
  imports Complex_Main "HOL-Library.Word"
begin

unbundle bit_operations_syntax

section \<open>The whisper.cpp bridge of ivrit\_ai\_gui\<close>

text \<open>
  A shallow embedding of \<^verbatim>\<open>whisper_cgo.go\<close> (model cache, transcription cache,
  callback registry, \<^verbatim>\<open>TranscribeWithTranslation\<close>, \<^verbatim>\<open>readWAVFile\<close>).
  Go's \<^verbatim>\<open>int\<close> is taken at 64 bits and \<^verbatim>\<open>uintptr\<close> at 64 bits (the amd64 and
  arm64 targets of the build scripts).
\<close>

subsection \<open>Data\<close>

type_synonym byte = "8 word"
type_synonym uintptr = "64 word"

text \<open>A Go pointer is an address; \<open>0\<close> is \<^verbatim>\<open>nil\<close>.\<close>

type_synonym ptr = nat

text \<open>A Go func value is named by a number; \<open>None\<close> is the \<^verbatim>\<open>nil\<close> func.\<close>

type_synonym func = nat

text \<open>
  \<^verbatim>\<open>Segment\<close> of \<^verbatim>\<open>transcription.go\<close>. \<open>Start\<close> and \<open>End\<close> are \<^verbatim>\<open>float64\<close> in the
  source; they are kept here as the quotient the source writes, without IEEE rounding.
\<close>

record Segment =
  Start :: real
  End :: real
  Text :: string
  Original :: string
  Translation :: string
  Speaker :: int

datatype wav_error = ReadFileError | WavTooShort | NotValidWav

subsection \<open>readWAVFile\<close>

definition RIFF :: "byte list" where
  "RIFF = [0x52, 0x49, 0x46, 0x46]"

definition WAVE :: "byte list" where
  "WAVE = [0x57, 0x41, 0x56, 0x45]"

definition data_tag :: "byte list" where
  "data_tag = [0x64, 0x61, 0x74, 0x61]"

text \<open>The Go slice expression \<^verbatim>\<open>data[i:j]\<close>, used only where \<open>i \<le> j \<le> len(data)\<close>.\<close>

definition go_slice :: "'a list \<Rightarrow> nat \<Rightarrow> nat \<Rightarrow> 'a list" where
  "go_slice xs i j = take (j - i) (drop i xs)"

text \<open>
  \<^verbatim>\<open>int(data[24]) | int(data[25])<<8 | int(data[26])<<16 | int(data[27])<<24\<close>
  on 64-bit \<^verbatim>\<open>int\<close>.
\<close>

definition sample_rate_of :: "byte list \<Rightarrow> int" where
  "sample_rate_of data =
     sint ((ucast (data ! 24) :: 64 word)
           OR push_bit 8 (ucast (data ! 25))
           OR push_bit 16 (ucast (data ! 26))
           OR push_bit 24 (ucast (data ! 27)))"

text \<open>
  The loop \<^verbatim>\<open>for i := 12; i < len(data)-8; i++\<close> that looks for the tag
  \<^verbatim>\<open>"data"\<close>: the value of \<^verbatim>\<open>dataOffset\<close> after it, started at \<open>i\<close>.
\<close>

function find_data :: "byte list \<Rightarrow> nat \<Rightarrow> nat" where
  "find_data data i =
     (if int i < int (length data) - 8
      then (if go_slice data i (i + 4) = data_tag then i + 8 else find_data data (i + 1))
      else 44)"
  by pat_completeness auto
termination
  by (relation "measure (\<lambda>(data, i). length data - i)") auto

declare find_data.simps [simp del]

text \<open>
  The file system is a map from paths to contents; \<^verbatim>\<open>os.ReadFile\<close> fails on a path
  that has none.
\<close>

type_synonym files = "string \<rightharpoonup> byte list"

definition readWAVFile :: "files \<Rightarrow> string \<Rightarrow> wav_error + (byte list \<times> int)" where
  "readWAVFile fs wavPath =
     (case fs wavPath of
        None \<Rightarrow> Inl ReadFileError
      | Some data \<Rightarrow>
          if length data < 44 then Inl WavTooShort
          else if go_slice data 0 4 \<noteq> RIFF then Inl NotValidWav
          else if go_slice data 8 12 \<noteq> WAVE then Inl NotValidWav
          else
            let sampleRate = sample_rate_of data;
                dataOffset = find_data data 12;
                pcmData = drop dataOffset data
            in Inr (pcmData, sampleRate))"


subsection \<open>The native engine and the other collaborators\<close>

text \<open>A native context (\<^verbatim>\<open>*C.struct_whisper_context\<close>) is an address; \<open>0\<close> is \<^verbatim>\<open>NULL\<close>.\<close>

type_synonym ctx = nat

text \<open>
  What the engine holds for one segment: \<^verbatim>\<open>whisper_full_get_segment_t0\<close>, \<^verbatim>\<open>_t1\<close>
  (centiseconds), \<^verbatim>\<open>_text\<close> and \<^verbatim>\<open>_speaker_turn_next\<close>.
\<close>

record raw_segment =
  t0 :: int
  t1 :: int
  seg_text :: string
  speaker_turn_next :: bool

text \<open>
  The fields of \<^verbatim>\<open>whisper_full_params\<close> that \<^verbatim>\<open>TranscribeWithTranslation\<close> sets;
  \<open>progress_callback\<close> says whether \<^verbatim>\<open>whisper_progress_callback_go\<close> is installed.
  \<^verbatim>\<open>C.int(cpuThreads)\<close> keeps the low 32 bits.
\<close>

record whisper_full_params =
  language :: string
  n_threads :: "32 word"
  translate :: bool
  print_progress :: bool
  print_special :: bool
  print_realtime :: bool
  print_timestamps :: bool
  tdrz_enable :: bool
  progress_callback :: bool
  progress_callback_user_data :: uintptr

text \<open>
  One execution of the blocking call \<^verbatim>\<open>whisper_full\<close>: its return status, the segments
  the context holds afterwards, and what happens while it runs, in order: the engine
  reports a progress value to the installed progress callback (\<open>Report\<close>), or the
  200 ms ticker of the polling goroutine fires (\<open>Tick\<close>).
\<close>

datatype native_event = Report int | Tick

record native_run =
  status :: int
  produced :: "raw_segment list"
  timeline :: "native_event list"

text \<open>
  The collaborators outside the repository: \<^verbatim>\<open>os.Stat\<close> (whether it fails on a path
  for another reason than that the path does not exist: no permission, a component that
  is not a directory), \<^verbatim>\<open>os.CreateTemp\<close> (the new file's name),
  the \<^verbatim>\<open>ffmpeg\<close> process (the bytes it writes, \<open>None\<close> on a nonzero exit),
  \<^verbatim>\<open>whisper_init_from_file_with_params\<close> (whether the load succeeds),
  \<^verbatim>\<open>whisper_full\<close>, and Go's \<^verbatim>\<open>string([]rune(text))\<close>.
\<close>

record env =
  Stat_fails :: "files \<Rightarrow> string \<Rightarrow> bool"
  CreateTemp :: "files \<Rightarrow> string option"
  ffmpeg :: "files \<Rightarrow> string \<Rightarrow> byte list option"
  whisper_init_from_file :: "files \<Rightarrow> string \<Rightarrow> bool"
  whisper_full :: "ctx \<Rightarrow> whisper_full_params \<Rightarrow> real list \<Rightarrow> native_run"
  runes_to_string :: "string \<Rightarrow> string"

subsection \<open>Program state\<close>

record cachedModel =
  ctx :: ctx
  mutex :: bool

text \<open>\<open>progressPercent\<close> is a \<^verbatim>\<open>*int32\<close>: the address of a cell, \<open>0\<close> for \<^verbatim>\<open>nil\<close>.\<close>

record transcriptionCallbacks =
  progressCallback :: "func option"
  segmentCallback :: "func option"
  cb_ctx :: ctx
  currentSpeaker :: int
  progressPercent :: ptr

type_synonym transcriptionCacheKey = "string \<times> string"

record WhisperCGOEngine =
  model :: ptr
  modelPath :: string
  fromCache :: bool

text \<open>
  The package-level variables, the allocated \<^verbatim>\<open>cachedModel\<close> structs (\<open>models\<close>),
  the \<^verbatim>\<open>int32\<close> cells that pointers refer to (\<open>cells\<close>), the segments each native
  context holds (\<open>contexts\<close>), the file system and the allocator.
\<close>

record state =
  callbackRegistry :: "uintptr \<rightharpoonup> transcriptionCallbacks"
  callbackIDCounter :: uintptr
  modelCache :: "string \<rightharpoonup> ptr"
  transcriptionCache :: "transcriptionCacheKey \<rightharpoonup> Segment list"
  models :: "ptr \<rightharpoonup> cachedModel"
  cells :: "ptr \<rightharpoonup> int"
  contexts :: "ctx \<rightharpoonup> raw_segment list"
  files :: files
  next_addr :: nat

definition init_state :: "files \<Rightarrow> state" where
  "init_state fs =
     \<lparr>callbackRegistry = Map.empty, callbackIDCounter = 1, modelCache = Map.empty,
      transcriptionCache = Map.empty, models = Map.empty, cells = Map.empty,
      contexts = Map.empty, files = fs, next_addr = 0\<rparr>"

text \<open>A fresh address, never \<open>0\<close>.\<close>

definition alloc :: "state \<Rightarrow> ptr \<times> state" where
  "alloc s = (next_addr s + 1, s\<lparr>next_addr := next_addr s + 1\<rparr>)"

subsection \<open>Errors and observable effects\<close>

datatype prep_error = CreateTempFailed | FfmpegFailed

text \<open>
  The error values of the source, one constructor per \<^verbatim>\<open>fmt.Errorf\<close>, the runtime
  panic of \<^verbatim>\<open>&samples[0]\<close> on an empty slice, and \<open>Blocked\<close>: in a run without other
  goroutines, \<^verbatim>\<open>mutex.Lock()\<close> on a held mutex never returns.
\<close>

datatype error =
    ModelPathRequired
  | ModelFileNotFound string
  | LoadFailed string
  | ContextNotInitialized
  | PrepareAudioFailed prep_error
  | ReadAudioFailed wav_error
  | BadSampleRate int
  | InferenceFailure int
  | IndexOutOfRangePanic
  | Blocked

text \<open>The status messages, one constructor per format string, with its arguments.\<close>

datatype status_msg =
    UsingCached
  | LoadedCached nat
  | TranscribingWithModel string
  | PreparingAudio
  | StartingTranscription
  | TranscribingPercent int
  | ProcessingSegments nat
  | TranscriptionComplete nat

text \<open>
  What a call does to the outside: calls of the progress sink and of the segment sink,
  and the blocking native call with its arguments. The parameters \<^verbatim>\<open>progressCallback\<close>
  and \<^verbatim>\<open>segmentCallback\<close> of the source are written \<open>progressCb\<close> and \<open>segmentCb\<close>,
  since the struct fields have these names.
\<close>

datatype event =
    is_ProgressEv: ProgressEv func status_msg
  | is_SegmentEv: SegmentEv func Segment
  | is_NativeCall: NativeCall ctx whisper_full_params "real list"

definition say :: "func option \<Rightarrow> status_msg \<Rightarrow> event list" where
  "say progressCb msg =
     (case progressCb of None \<Rightarrow> [] | Some f \<Rightarrow> [ProgressEv f msg])"

definition emit :: "func option \<Rightarrow> Segment list \<Rightarrow> event list" where
  "emit segmentCb segs =
     (case segmentCb of None \<Rightarrow> [] | Some f \<Rightarrow> map (SegmentEv f) segs)"

subsection \<open>NewWhisperCGOEngine\<close>

text \<open>
  The function takes the model cache's lock twice, around the lookup and around the
  insert, and loads with no lock held; each of the three parts is one definition.
  \<open>engine_lookup\<close> is \<open>None\<close> on a cache miss. \<open>stat_not_exist\<close> is
  \<^verbatim>\<open>os.IsNotExist(err)\<close> for the error of \<^verbatim>\<open>os.Stat(modelPath)\<close>: the path has no
  file and \<^verbatim>\<open>Stat\<close> did not fail for another reason. On any other error of
  \<^verbatim>\<open>Stat\<close> the function goes on to the cache and the loader.
\<close>

definition stat_not_exist :: "env \<Rightarrow> files \<Rightarrow> string \<Rightarrow> bool" where
  "stat_not_exist ev fs path \<longleftrightarrow> fs path = None \<and> \<not> Stat_fails ev fs path"

definition engine_lookup ::
  "env \<Rightarrow> string \<Rightarrow> state \<Rightarrow> (error + WhisperCGOEngine) option" where
  "engine_lookup ev path s =
     (if path = [] then Some (Inl ModelPathRequired)
      else if stat_not_exist ev (files s) path then Some (Inl (ModelFileNotFound path))
      else (case modelCache s path of
              None \<Rightarrow> None
            | Some cachedMdl \<Rightarrow>
                if cachedMdl \<noteq> 0
                then Some (Inr \<lparr>model = cachedMdl, modelPath = path, fromCache = True\<rparr>)
                else None))"

definition engine_load :: "env \<Rightarrow> string \<Rightarrow> state \<Rightarrow> (error + ptr) \<times> state" where
  "engine_load ev path s =
     (if \<not> whisper_init_from_file ev (files s) path then (Inl (LoadFailed path), s)
      else
        let (c, s1) = alloc s;
            (cachedMdl, s2) = alloc s1
        in (Inr cachedMdl,
            s2\<lparr>contexts := (contexts s2)(c \<mapsto> []),
                models := (models s2)(cachedMdl \<mapsto> \<lparr>ctx = c, mutex = False\<rparr>)\<rparr>))"

definition engine_insert :: "string \<Rightarrow> ptr \<Rightarrow> state \<Rightarrow> WhisperCGOEngine \<times> state" where
  "engine_insert path cachedMdl s =
     (\<lparr>model = cachedMdl, modelPath = path, fromCache = False\<rparr>,
      s\<lparr>modelCache := (modelCache s)(path \<mapsto> cachedMdl)\<rparr>)"

definition NewWhisperCGOEngine ::
  "env \<Rightarrow> string \<Rightarrow> state \<Rightarrow> (error + WhisperCGOEngine) \<times> state" where
  "NewWhisperCGOEngine ev path s =
     (case engine_lookup ev path s of
        Some r \<Rightarrow> (r, s)
      | None \<Rightarrow>
          (case engine_load ev path s of
             (Inl err, s1) \<Rightarrow> (Inl err, s1)
           | (Inr cachedMdl, s1) \<Rightarrow>
               let (e, s2) = engine_insert path cachedMdl s1 in (Inr e, s2)))"

subsection \<open>The callback registry\<close>

text \<open>
  \<^verbatim>\<open>whisper_progress_callback_go\<close>: one store into the slot's progress cell, when the
  token has a slot and the slot has a cell.
\<close>

definition whisper_progress_callback_go :: "uintptr \<Rightarrow> int \<Rightarrow> state \<Rightarrow> state" where
  "whisper_progress_callback_go callbackID progress s =
     (case callbackRegistry s callbackID of
        None \<Rightarrow> s
      | Some callbacks \<Rightarrow>
          if progressPercent callbacks \<noteq> 0
          then s\<lparr>cells := (cells s)(progressPercent callbacks \<mapsto> progress)\<rparr>
          else s)"


text \<open>
  Lines 290 to 306: the registration, done only with a progress sink. The result is
  \<^verbatim>\<open>callbackID\<close> (\<open>0\<close> when nothing was registered), the parameters and the state.
\<close>

definition register_callbacks ::
  "ctx \<Rightarrow> func option \<Rightarrow> ptr \<Rightarrow> whisper_full_params \<Rightarrow> state
     \<Rightarrow> uintptr \<times> whisper_full_params \<times> state" where
  "register_callbacks c progressCb cell params s =
     (case progressCb of
        None \<Rightarrow> (0, params, s)
      | Some _ \<Rightarrow>
          let callbackID = callbackIDCounter s;
              s1 = s\<lparr>callbackIDCounter := callbackIDCounter s + 1\<rparr>;
              s2 = s1\<lparr>callbackRegistry := (callbackRegistry s1)(callbackID \<mapsto>
                        \<lparr>progressCallback = None, segmentCallback = None, cb_ctx = c,
                         currentSpeaker = 0, progressPercent = cell\<rparr>)\<rparr>
          in (callbackID,
              params\<lparr>progress_callback := True, progress_callback_user_data := callbackID\<rparr>,
              s2))"

text \<open>Lines 308 to 315: the deferred cleanup of the registration.\<close>

definition cleanup_callbacks :: "uintptr \<Rightarrow> state \<Rightarrow> state" where
  "cleanup_callbacks callbackID s =
     (if callbackID \<noteq> 0
      then s\<lparr>callbackRegistry := (callbackRegistry s)(callbackID := None)\<rparr>
      else s)"

subsection \<open>The polling goroutine\<close>

text \<open>
  Lines 336 to 353, over the values that \<^verbatim>\<open>atomic.LoadInt32\<close> returns at the
  successive ticks: the percentages passed to the progress sink, in order.
\<close>

fun poll_loop :: "int \<Rightarrow> int list \<Rightarrow> int list" where
  "poll_loop lastProgress [] = []"
| "poll_loop lastProgress (currentProgress # ticks) =
     (if currentProgress \<noteq> lastProgress
      then (if currentProgress > 0 \<and> currentProgress \<le> 100 then [currentProgress] else [])
             @ poll_loop currentProgress ticks
      else poll_loop lastProgress ticks)"

definition load_cell :: "ptr \<Rightarrow> state \<Rightarrow> int" where
  "load_cell a s = (case cells s a of None \<Rightarrow> 0 | Some v \<Rightarrow> v)"

text \<open>
  What happens while \<^verbatim>\<open>whisper_full\<close> runs: each report goes to the installed
  progress callback, each tick reads the cell. The result is the state afterwards and
  the values read at the ticks.
\<close>

fun run_timeline ::
  "whisper_full_params \<Rightarrow> ptr \<Rightarrow> native_event list \<Rightarrow> state \<Rightarrow> state \<times> int list" where
  "run_timeline params cell [] s = (s, [])"
| "run_timeline params cell (Report p # evs) s =
     run_timeline params cell evs
       (if progress_callback params
        then whisper_progress_callback_go (progress_callback_user_data params) p s
        else s)"
| "run_timeline params cell (Tick # evs) s =
     (let (s', vs) = run_timeline params cell evs s in (s', load_cell cell s # vs))"

subsection \<open>prepareAudioFile\<close>

definition prepareAudioFile ::
  "env \<Rightarrow> string \<Rightarrow> func option \<Rightarrow> state \<Rightarrow> (prep_error + string) \<times> state \<times> event list" where
  "prepareAudioFile ev audioPath progressCb s =
     (let tr = say progressCb PreparingAudio in
      case CreateTemp ev (files s) of
        None \<Rightarrow> (Inl CreateTempFailed, s, tr)
      | Some tempPath \<Rightarrow>
          let s1 = s\<lparr>files := (files s)(tempPath \<mapsto> [])\<rparr> in
          (case ffmpeg ev (files s1) audioPath of
             None \<Rightarrow> (Inl FfmpegFailed, s1\<lparr>files := (files s1)(tempPath := None)\<rparr>, tr)
           | Some out \<Rightarrow> (Inr tempPath, s1\<lparr>files := (files s1)(tempPath \<mapsto> out)\<rparr>, tr)))"

definition os_Remove :: "string \<Rightarrow> state \<Rightarrow> state" where
  "os_Remove path s = s\<lparr>files := (files s)(path := None)\<rparr>"

subsection \<open>TranscribeWithTranslation\<close>

text \<open>
  Lines 317 to 323: 16-bit little-endian samples, \<^verbatim>\<open>len(audioData)/2\<close> of them, each
  converted to \<^verbatim>\<open>float32(sample) / 32768.0\<close> (exact in \<^verbatim>\<open>float32\<close>).
\<close>

fun to_int16 :: "byte list \<Rightarrow> 16 word list" where
  "to_int16 (lo # hi # rest) = (ucast lo OR push_bit 8 (ucast hi)) # to_int16 rest"
| "to_int16 _ = []"

definition to_samples :: "byte list \<Rightarrow> real list" where
  "to_samples audioData = map (\<lambda>sample. real_of_int (sint sample) / 32768) (to_int16 audioData)"

text \<open>
  Lines 379 to 414: the extraction loop from index \<open>i\<close> on, over the segments \<open>raw\<close>
  that the context holds.
\<close>

function extract_segments :: "env \<Rightarrow> raw_segment list \<Rightarrow> nat \<Rightarrow> int \<Rightarrow> Segment list" where
  "extract_segments ev raw i speaker =
     (if i < length raw
      then
        let speaker' = (if i > 0 \<and> speaker_turn_next (raw ! (i - 1))
                        then speaker + 1 else speaker);
            segment = \<lparr>Start = real_of_int (t0 (raw ! i)) / 100,
                       End = real_of_int (t1 (raw ! i)) / 100,
                       Text = runes_to_string ev (seg_text (raw ! i)),
                       Original = [], Translation = [],
                       Speaker = speaker'\<rparr>
        in segment # extract_segments ev raw (i + 1) speaker'
      else [])"
  by pat_completeness auto
termination
  by (relation "measure (\<lambda>(ev, raw, i, speaker). length raw - i)") auto

declare extract_segments.simps [simp del]

text \<open>\<^verbatim>\<open>mutex.Lock()\<close> and \<^verbatim>\<open>mutex.Unlock()\<close> on the \<^verbatim>\<open>cachedModel\<close> at an address.\<close>

definition set_mutex :: "ptr \<Rightarrow> bool \<Rightarrow> state \<Rightarrow> state" where
  "set_mutex p b s =
     (case models s p of
        None \<Rightarrow> s
      | Some m \<Rightarrow> s\<lparr>models := (models s)(p \<mapsto> m\<lparr>mutex := b\<rparr>)\<rparr>)"

text \<open>
  The function is split where \<^verbatim>\<open>whisper_full\<close> is entered (line 359).
  \<open>transcribe_setup\<close> is everything before: it either returns (\<open>Return\<close>, with the
  deferred calls registered so far already run) or arrives at the call (\<open>Enter\<close>, with
  the local variables that the rest needs).
\<close>

record native_entry =
  ne_model :: ptr
  ne_ctx :: ctx
  ne_tempWav :: string
  ne_params :: whisper_full_params
  ne_callbackID :: uintptr
  ne_cell :: ptr
  ne_samples :: "real list"

datatype stage = is_Return: Return "error + Segment list" | is_Enter: Enter native_entry

text \<open>A deferred call runs when the function returns.\<close>

definition on_return ::
  "(state \<Rightarrow> state) \<Rightarrow> stage \<times> state \<times> event list \<Rightarrow> stage \<times> state \<times> event list" where
  "on_return deferred r =
     (case r of
        (Return res, s, tr) \<Rightarrow> (Return res, deferred s, tr)
      | (Enter ne, s, tr) \<Rightarrow> (Enter ne, s, tr))"

text \<open>
  Lines 274 to 357 and the evaluation of \<^verbatim>\<open>&samples[0]\<close>, which panics on an empty
  slice: parameters, progress cell, registration, samples.
\<close>

definition setup_with_audio ::
  "ptr \<Rightarrow> ctx \<Rightarrow> string \<Rightarrow> int \<Rightarrow> string \<Rightarrow> func option \<Rightarrow> byte list \<Rightarrow> state
     \<Rightarrow> stage \<times> state \<times> event list" where
  "setup_with_audio mdl c tempWav cpuThreads translateTo progressCb audioData s =
     (let params = \<lparr>language = ''he'', n_threads = word_of_int cpuThreads,
                     translate = (translateTo = ''en''),
                     print_progress = False, print_special = False,
                     print_realtime = False, print_timestamps = True,
                     tdrz_enable = True,
                     progress_callback = False, progress_callback_user_data = 0\<rparr>;
          (cell, s1) = alloc s;
          s2 = s1\<lparr>cells := (cells s1)(cell \<mapsto> 0)\<rparr>;
          (callbackID, params', s3) = register_callbacks c progressCb cell params s2;
          samples = to_samples audioData;
          tr = say progressCb StartingTranscription
      in on_return (cleanup_callbacks callbackID)
           (if samples = [] then (Return (Inl IndexOutOfRangePanic), s3, tr)
            else (Enter \<lparr>ne_model = mdl, ne_ctx = c, ne_tempWav = tempWav,
                         ne_params = params', ne_callbackID = callbackID, ne_cell = cell,
                         ne_samples = samples\<rparr>, s3, tr)))"

text \<open>Lines 252 to 272, then the above; \<^verbatim>\<open>os.Remove(tempWav)\<close> is deferred.\<close>

definition setup_locked ::
  "env \<Rightarrow> ptr \<Rightarrow> ctx \<Rightarrow> string \<Rightarrow> string \<Rightarrow> int \<Rightarrow> string \<Rightarrow> func option \<Rightarrow> state
     \<Rightarrow> stage \<times> state \<times> event list" where
  "setup_locked ev mdl c audioPath modelID cpuThreads translateTo progressCb s =
     (let tr1 = say progressCb (TranscribingWithModel modelID) in
      case prepareAudioFile ev audioPath progressCb s of
        (Inl err, s1, tr2) \<Rightarrow> (Return (Inl (PrepareAudioFailed err)), s1, tr1 @ tr2)
      | (Inr tempWav, s1, tr2) \<Rightarrow>
          on_return (os_Remove tempWav)
            (case readWAVFile (files s1) tempWav of
               Inl err \<Rightarrow> (Return (Inl (ReadAudioFailed err)), s1, tr1 @ tr2)
             | Inr (audioData, sampleRate) \<Rightarrow>
                 if sampleRate \<noteq> 16000
                 then (Return (Inl (BadSampleRate sampleRate)), s1, tr1 @ tr2)
                 else
                   (case setup_with_audio mdl c tempWav cpuThreads translateTo progressCb
                           audioData s1 of
                      (st, s2, tr3) \<Rightarrow> (st, s2, tr1 @ tr2 @ tr3))))"

text \<open>
  Lines 219 to 250, then the above; \<^verbatim>\<open>mutex.Unlock()\<close> is deferred. A model pointer
  that is \<^verbatim>\<open>nil\<close> or has a \<^verbatim>\<open>nil\<close> context is refused; the transcription cache is
  consulted only without a translation target.
\<close>

definition transcribe_setup ::
  "env \<Rightarrow> WhisperCGOEngine \<Rightarrow> string \<Rightarrow> string \<Rightarrow> int \<Rightarrow> string \<Rightarrow> func option
     \<Rightarrow> func option \<Rightarrow> state \<Rightarrow> stage \<times> state \<times> event list" where
  "transcribe_setup ev e audioPath modelID cpuThreads translateTo progressCb segmentCb s =
     (case (if model e = 0 then None else models s (model e)) of
        None \<Rightarrow> (Return (Inl ContextNotInitialized), s, [])
      | Some m \<Rightarrow>
          if ctx m = 0 then (Return (Inl ContextNotInitialized), s, [])
          else
            (case (if translateTo = [] then transcriptionCache s (audioPath, modelID)
                   else None) of
               Some cachedSegments \<Rightarrow>
                 (Return (Inr cachedSegments), s,
                  say progressCb UsingCached @ emit segmentCb cachedSegments
                    @ say progressCb (LoadedCached (length cachedSegments)))
             | None \<Rightarrow>
                 if mutex m then (Return (Inl Blocked), s, [])
                 else
                   on_return (set_mutex (model e) False)
                     (setup_locked ev (model e) (ctx m) audioPath modelID cpuThreads
                        translateTo progressCb (set_mutex (model e) True s))))"

text \<open>
  Lines 359 to 428: the native call with the polling goroutine beside it, the status
  check, the extraction, the write to the transcription cache, and on return the three
  deferred calls in reverse order of registration.
\<close>

definition run_deferred :: "native_entry \<Rightarrow> state \<Rightarrow> state" where
  "run_deferred ne s =
     set_mutex (ne_model ne) False
       (os_Remove (ne_tempWav ne) (cleanup_callbacks (ne_callbackID ne) s))"

definition transcribe_native ::
  "env \<Rightarrow> native_entry \<Rightarrow> string \<Rightarrow> string \<Rightarrow> string \<Rightarrow> func option \<Rightarrow> func option
     \<Rightarrow> state \<Rightarrow> (error + Segment list) \<times> state \<times> event list" where
  "transcribe_native ev ne audioPath modelID translateTo progressCb segmentCb s =
     (let run = whisper_full ev (ne_ctx ne) (ne_params ne) (ne_samples ne);
          (s1, ticks) = run_timeline (ne_params ne) (ne_cell ne) (timeline run) s;
          s2 = s1\<lparr>contexts := (contexts s1)(ne_ctx ne \<mapsto> produced run)\<rparr>;
          polled = (case progressCb of
                      None \<Rightarrow> []
                    | Some f \<Rightarrow> map (\<lambda>v. ProgressEv f (TranscribingPercent v))
                                 (poll_loop (- 1) ticks));
          tr1 = NativeCall (ne_ctx ne) (ne_params ne) (ne_samples ne) # polled
      in if status run \<noteq> 0
         then (Inl (InferenceFailure (status run)), run_deferred ne s2, tr1)
         else
           let raw = (case contexts s2 (ne_ctx ne) of None \<Rightarrow> [] | Some r \<Rightarrow> r);
               nSegments = length raw;
               segments = extract_segments ev raw 0 0;
               tr2 = say progressCb (ProcessingSegments nSegments) @ emit segmentCb segments
                       @ say progressCb (TranscriptionComplete (length segments));
               s3 = (if translateTo = []
                     then s2\<lparr>transcriptionCache :=
                               (transcriptionCache s2)((audioPath, modelID) \<mapsto> segments)\<rparr>
                     else s2)
           in (Inr segments, run_deferred ne s3, tr1 @ tr2))"

definition TranscribeWithTranslation ::
  "env \<Rightarrow> WhisperCGOEngine \<Rightarrow> string \<Rightarrow> string \<Rightarrow> int \<Rightarrow> string \<Rightarrow> func option
     \<Rightarrow> func option \<Rightarrow> state \<Rightarrow> (error + Segment list) \<times> state \<times> event list" where
  "TranscribeWithTranslation ev e audioPath modelID cpuThreads translateTo progressCb
       segmentCb s =
     (case transcribe_setup ev e audioPath modelID cpuThreads translateTo progressCb
             segmentCb s of
        (Return res, s1, tr) \<Rightarrow> (res, s1, tr)
      | (Enter ne, s1, tr) \<Rightarrow>
          (case transcribe_native ev ne audioPath modelID translateTo progressCb
                  segmentCb s1 of
             (res, s2, tr') \<Rightarrow> (res, s2, tr @ tr')))"

definition Transcribe ::
  "env \<Rightarrow> WhisperCGOEngine \<Rightarrow> string \<Rightarrow> string \<Rightarrow> int \<Rightarrow> func option \<Rightarrow> func option
     \<Rightarrow> state \<Rightarrow> (error + Segment list) \<times> state \<times> event list" where
  "Transcribe ev e audioPath modelID cpuThreads progressCb segmentCb s =
     TranscribeWithTranslation ev e audioPath modelID cpuThreads [] progressCb segmentCb s"

subsection \<open>States reachable by calls\<close>

text \<open>
  The states the package-level variables can be in: the initial one, and those after a
  call of \<^verbatim>\<open>NewWhisperCGOEngine\<close> or \<^verbatim>\<open>TranscribeWithTranslation\<close> or a change of
  the file system from outside.
\<close>

inductive reachable :: "env \<Rightarrow> state \<Rightarrow> bool" for ev :: env where
  initial: "reachable ev (init_state fs)"
| new_engine:
    "reachable ev s \<Longrightarrow> NewWhisperCGOEngine ev path s = (r, s') \<Longrightarrow> reachable ev s'"
| transcribe:
    "reachable ev s \<Longrightarrow>
     TranscribeWithTranslation ev e audioPath modelID cpuThreads translateTo progressCb
       segmentCb s = (r, s', tr) \<Longrightarrow> reachable ev s'"
| file_system: "reachable ev s \<Longrightarrow> reachable ev (s\<lparr>files := fs\<rparr>)"

subsection \<open>Concurrent calls\<close>

text \<open>
  \<open>TranscribeWithTranslation\<close> in the four parts that a goroutine runs with respect to
  the mutex of its model; between two parts other goroutines may run.
  \<^item> \<open>before_lock\<close>, lines 219 to 246: the checks of the engine and the look into the
    transcription cache. It changes nothing; it is the returned value with the status
    messages, or \<open>None\<close> when the call goes on to line 249.
  \<^item> \<open>Lock\<close>, line 249: \<^verbatim>\<open>e.model.mutex.Lock()\<close> returns only on a free mutex, which
    is held from then on; \<open>None\<close> while the goroutine has to wait.
  \<^item> \<open>after_lock\<close>, lines 250 to 358, with \<^verbatim>\<open>Unlock\<close> deferred: it returns, or
    arrives at \<^verbatim>\<open>whisper_full\<close>.
  \<^item> \<open>transcribe_native\<close>, lines 359 to 428 and the deferred calls.

  \<open>Lock\<close> and \<open>after_lock\<close> read the \<^verbatim>\<open>cachedModel\<close> that \<^verbatim>\<open>e.model\<close> points
  to; they are \<open>None\<close> for an address with no struct, which \<open>before_lock\<close> has
  ruled out for a call that gets there.
\<close>

definition before_lock ::
  "WhisperCGOEngine \<Rightarrow> string \<Rightarrow> string \<Rightarrow> string \<Rightarrow> func option \<Rightarrow> func option \<Rightarrow> state
     \<Rightarrow> ((error + Segment list) \<times> event list) option" where
  "before_lock e audioPath modelID translateTo progressCb segmentCb s =
     (case (if model e = 0 then None else models s (model e)) of
        None \<Rightarrow> Some (Inl ContextNotInitialized, [])
      | Some m \<Rightarrow>
          if ctx m = 0 then Some (Inl ContextNotInitialized, [])
          else
            (case (if translateTo = [] then transcriptionCache s (audioPath, modelID)
                   else None) of
               Some cachedSegments \<Rightarrow>
                 Some (Inr cachedSegments,
                       say progressCb UsingCached @ emit segmentCb cachedSegments
                         @ say progressCb (LoadedCached (length cachedSegments)))
             | None \<Rightarrow> None))"

definition Lock :: "ptr \<Rightarrow> state \<Rightarrow> state option" where
  "Lock p s =
     (case models s p of
        None \<Rightarrow> None
      | Some m \<Rightarrow> if mutex m then None else Some (set_mutex p True s))"

definition after_lock ::
  "env \<Rightarrow> WhisperCGOEngine \<Rightarrow> string \<Rightarrow> string \<Rightarrow> int \<Rightarrow> string \<Rightarrow> func option \<Rightarrow> state
     \<Rightarrow> (stage \<times> state \<times> event list) option" where
  "after_lock ev e audioPath modelID cpuThreads translateTo progressCb s =
     (case models s (model e) of
        None \<Rightarrow> None
      | Some m \<Rightarrow>
          Some (on_return (set_mutex (model e) False)
                  (setup_locked ev (model e) (ctx m) audioPath modelID cpuThreads
                     translateTo progressCb s)))"

text \<open>The arguments of one call, and the model it resolved to (\<^verbatim>\<open>e.model\<close>).\<close>

record call =
  c_engine :: WhisperCGOEngine
  c_audioPath :: string
  c_modelID :: string
  c_cpuThreads :: int
  c_translateTo :: string
  c_progressCb :: "func option"
  c_segmentCb :: "func option"

definition handle :: "(nat \<Rightarrow> call) \<Rightarrow> nat \<Rightarrow> ptr" where
  "handle calls t = model (c_engine (calls t))"

text \<open>
  Where a call stands: called (before line 219), in \<^verbatim>\<open>Lock\<close> (line 249), past
  \<^verbatim>\<open>Lock\<close> (line 250), at and inside \<^verbatim>\<open>whisper_full\<close> with the local variables of
  the call (from line 359 until the call returns), returned. A call is inside its native
  call only while it stands at \<open>InNative\<close>.
\<close>

datatype position =
  Called | AtLock | Locked | InNative native_entry | Returned "error + Segment list"

fun arrive :: "stage \<Rightarrow> position" where
  "arrive (Return res) = Returned res"
| "arrive (Enter ne) = InNative ne"

fun in_native :: "position \<Rightarrow> bool" where
  "in_native (InNative ne) = True"
| "in_native _ = False"

fun holds_lock :: "position \<Rightarrow> bool" where
  "holds_lock Locked = True"
| "holds_lock (InNative ne) = True"
| "holds_lock _ = False"

text \<open>
  A configuration: the package-level state, which all calls share, where each call
  stands, and what the calls did to the outside so far, each effect with the number of
  its call.
\<close>

record config =
  shared :: state
  pos :: "nat \<Rightarrow> position"
  log :: "(nat \<times> event) list"

definition start :: "state \<Rightarrow> config" where
  "start s = \<lparr>shared = s, pos = (\<lambda>t. Called), log = []\<rparr>"

definition move :: "config \<Rightarrow> nat \<Rightarrow> position \<Rightarrow> state \<Rightarrow> event list \<Rightarrow> config" where
  "move cf t p s tr =
     \<lparr>shared = s, pos = (pos cf)(t := p), log = log cf @ map (Pair t) tr\<rparr>"

text \<open>
  Call \<open>t\<close> runs its next part on the shared state; \<open>None\<close> when it cannot: it waits
  in \<^verbatim>\<open>Lock\<close>, or has returned.
\<close>

definition step :: "env \<Rightarrow> (nat \<Rightarrow> call) \<Rightarrow> config \<Rightarrow> nat \<Rightarrow> config option" where
  "step ev calls cf t =
     (let c = calls t; s = shared cf in
      case pos cf t of
        Called \<Rightarrow>
          (case before_lock (c_engine c) (c_audioPath c) (c_modelID c) (c_translateTo c)
                  (c_progressCb c) (c_segmentCb c) s of
             Some (res, tr) \<Rightarrow> Some (move cf t (Returned res) s tr)
           | None \<Rightarrow> Some (move cf t AtLock s []))
      | AtLock \<Rightarrow>
          (case Lock (model (c_engine c)) s of
             None \<Rightarrow> None
           | Some s' \<Rightarrow> Some (move cf t Locked s' []))
      | Locked \<Rightarrow>
          (case after_lock ev (c_engine c) (c_audioPath c) (c_modelID c) (c_cpuThreads c)
                  (c_translateTo c) (c_progressCb c) s of
             None \<Rightarrow> None
           | Some (st, s', tr) \<Rightarrow> Some (move cf t (arrive st) s' tr))
      | InNative ne \<Rightarrow>
          (case transcribe_native ev ne (c_audioPath c) (c_modelID c) (c_translateTo c)
                  (c_progressCb c) (c_segmentCb c) s of
             (res, s', tr) \<Rightarrow> Some (move cf t (Returned res) s' tr))
      | Returned res \<Rightarrow> None)"

text \<open>
  A schedule names the call that runs next, one part at a time; it runs as far as every
  step is possible.
\<close>

fun exec :: "env \<Rightarrow> (nat \<Rightarrow> call) \<Rightarrow> config \<Rightarrow> nat list \<Rightarrow> config option" where
  "exec ev calls cf [] = Some cf"
| "exec ev calls cf (t # sched) =
     (case step ev calls cf t of None \<Rightarrow> None | Some cf' \<Rightarrow> exec ev calls cf' sched)"

subsection \<open>Concrete data for the examples\<close>

text \<open>
  A 46-byte file: the header with sample rate 16000 (\<open>0x3E80\<close>), no \<^verbatim>\<open>data\<close> tag,
  and two bytes after the header.
\<close>

definition wav46 :: "byte list" where
  "wav46 =
     [0x52, 0x49, 0x46, 0x46, 0, 0, 0, 0, 0x57, 0x41, 0x56, 0x45,
      0, 0, 0, 0, 0, 0, 0, 0, 0, 0, 0, 0,
      0x80, 0x3E, 0, 0,
      0, 0, 0, 0, 0, 0, 0, 0, 0, 0, 0, 0, 0, 0, 0, 0,
      1, 2]"

text \<open>
  An engine that produces three segments, with a turn after the first, fails with
  status 3 when asked for 0 threads, and whose progress goes 5, 0, 5 between ticks.
\<close>

definition demo_raw :: "raw_segment list" where
  "demo_raw =
     [\<lparr>t0 = 0, t1 = 150, seg_text = ''a'', speaker_turn_next = True\<rparr>,
      \<lparr>t0 = 150, t1 = 300, seg_text = ''b'', speaker_turn_next = False\<rparr>,
      \<lparr>t0 = 300, t1 = 450, seg_text = ''c'', speaker_turn_next = True\<rparr>]"

definition demo_env :: env where
  "demo_env =
     \<lparr>Stat_fails = (\<lambda>fs p. False),
      CreateTemp = (\<lambda>fs. Some ''t.wav''),
      ffmpeg = (\<lambda>fs p. if p = ''a.wav'' then Some wav46 else None),
      whisper_init_from_file = (\<lambda>fs p. True),
      whisper_full = (\<lambda>c prm smp.
         \<lparr>status = (if n_threads prm = 0 then 3 else 0), produced = demo_raw,
          timeline = [Tick, Report 5, Tick, Report 0, Tick, Report 5, Tick]\<rparr>),
      runes_to_string = (\<lambda>t. t)\<rparr>"

definition demo_files :: files where
  "demo_files = [''m.bin'' \<mapsto> [], ''a.wav'' \<mapsto> []]"

definition demo_engine :: WhisperCGOEngine where
  "demo_engine = \<lparr>model = 2, modelPath = ''m.bin'', fromCache = False\<rparr>"

text \<open>The state after \<^verbatim>\<open>NewWhisperCGOEngine("m.bin")\<close> in the initial state.\<close>

definition demo_state :: state where
  "demo_state =
     \<lparr>callbackRegistry = Map.empty, callbackIDCounter = 1,
      modelCache = [''m.bin'' \<mapsto> 2], transcriptionCache = Map.empty,
      models = [2 \<mapsto> \<lparr>ctx = 1, mutex = False\<rparr>], cells = Map.empty,
      contexts = [1 \<mapsto> []], files = demo_files, next_addr = 2\<rparr>"

definition demo_segments :: "Segment list" where
  "demo_segments =
     [\<lparr>Start = 0, End = 3 / 2, Text = ''a'', Original = [], Translation = [], Speaker = 0\<rparr>,
      \<lparr>Start = 3 / 2, End = 3, Text = ''b'', Original = [], Translation = [], Speaker = 1\<rparr>,
      \<lparr>Start = 3, End = 9 / 2, Text = ''c'', Original = [], Translation = [], Speaker = 1\<rparr>]"

text \<open>
  The state on the way into the native call of the example (four threads, progress sink
  5, segment sink 7), and the whole call.
\<close>

definition demo_entry :: "int \<Rightarrow> native_entry" where
  "demo_entry cpuThreads =
     \<lparr>ne_model = 2, ne_ctx = 1, ne_tempWav = ''t.wav'',
      ne_params =
        \<lparr>language = ''he'', n_threads = word_of_int cpuThreads, translate = False,
         print_progress = False, print_special = False, print_realtime = False,
         print_timestamps = True, tdrz_enable = True, progress_callback = True,
         progress_callback_user_data = 1\<rparr>,
      ne_callbackID = 1, ne_cell = 3, ne_samples = [513 / 32768]\<rparr>"

definition demo_mid :: state where
  "demo_mid =
     \<lparr>callbackRegistry =
        [1 \<mapsto> \<lparr>progressCallback = None, segmentCallback = None, cb_ctx = 1,
                currentSpeaker = 0, progressPercent = 3\<rparr>],
      callbackIDCounter = 2, modelCache = [''m.bin'' \<mapsto> 2],
      transcriptionCache = Map.empty,
      models = [2 \<mapsto> \<lparr>ctx = 1, mutex = True\<rparr>], cells = [3 \<mapsto> 0],
      contexts = [1 \<mapsto> []], files = demo_files(''t.wav'' \<mapsto> wav46), next_addr = 3\<rparr>"

definition demo_call ::
  "int \<Rightarrow> string \<Rightarrow> (error + Segment list) \<times> state \<times> event list" where
  "demo_call cpuThreads translateTo =
     TranscribeWithTranslation demo_env demo_engine ''a.wav'' ''turbo'' cpuThreads translateTo
       (Some 5) (Some 7) demo_state"

text \<open>
  Two callers of \<^verbatim>\<open>NewWhisperCGOEngine("m.bin")\<close> that both miss the cache: both
  load (\<open>race1\<close>, \<open>race2\<close>), the first inserts its handle 2 (\<open>race3\<close>), the second
  its handle 4 (\<open>race4\<close>).
\<close>

definition race0 :: state where
  "race0 = init_state demo_files"

definition race1 :: state where
  "race1 = snd (engine_load demo_env ''m.bin'' race0)"

definition race2 :: state where
  "race2 = snd (engine_load demo_env ''m.bin'' race1)"

definition race3 :: state where
  "race3 = snd (engine_insert ''m.bin'' 2 race2)"

definition race4 :: state where
  "race4 = snd (engine_insert ''m.bin'' 4 race3)"

text \<open>
  Two concurrent calls of the example, both on the model at address 2. Call 0 and call 1
  have arrived at \<^verbatim>\<open>Lock\<close>, call 0 has got the lock and has gone on to the native
  call: \<open>demo_race\<close>.
\<close>

definition demo_calls :: "nat \<Rightarrow> call" where
  "demo_calls t =
     \<lparr>c_engine = demo_engine, c_audioPath = ''a.wav'', c_modelID = ''turbo'',
      c_cpuThreads = 4, c_translateTo = [], c_progressCb = Some 5, c_segmentCb = Some 7\<rparr>"

definition demo_race :: config where
  "demo_race =
     \<lparr>shared = demo_mid,
      pos = (\<lambda>t. Called)(0 := InNative (demo_entry 4), 1 := AtLock),
      log = map (Pair 0)
              [ProgressEv 5 (TranscribingWithModel ''turbo''), ProgressEv 5 PreparingAudio,
               ProgressEv 5 StartingTranscription]\<rparr>"

subsection \<open>Predicates used in the proofs\<close>

text \<open>
  What a return leaves of a registration: either none was made, or the token was the
  counter's value and its slot is gone again.
\<close>

definition registry_restored :: "state \<Rightarrow> state \<Rightarrow> bool" where
  "registry_restored s s' \<longleftrightarrow>
     callbackRegistry s' = callbackRegistry s \<and> callbackIDCounter s' = callbackIDCounter s
     \<or> callbackRegistry s' = (callbackRegistry s)(callbackIDCounter s := None)
       \<and> callbackIDCounter s' = callbackIDCounter s + 1"

text \<open>The check of line 220 passes.\<close>

definition engine_ok :: "WhisperCGOEngine \<Rightarrow> state \<Rightarrow> bool" where
  "engine_ok e s \<longleftrightarrow>
     model e \<noteq> 0 \<and> (\<exists>m. models s (model e) = Some m \<and> ctx m \<noteq> 0)"

text \<open>Every cached list is the extraction of what some native call produced.\<close>

definition cache_produced :: "env \<Rightarrow> state \<Rightarrow> bool" where
  "cache_produced ev s \<longleftrightarrow>
     (\<forall>k L. transcriptionCache s k = Some L \<longrightarrow>
        (\<exists>c params samples.
           L = extract_segments ev (produced (whisper_full ev c params samples)) 0 0))"

text \<open>
  The speaker ids of \<open>L\<close> follow the turn flags of \<open>raw\<close>: they start at 0 and go up
  by one exactly after a flagged segment.
\<close>

definition speakers_follow :: "raw_segment list \<Rightarrow> Segment list \<Rightarrow> bool" where
  "speakers_follow raw L \<longleftrightarrow>
     length L = length raw
     \<and> (L \<noteq> [] \<longrightarrow> Speaker (L ! 0) = 0)
     \<and> (\<forall>i. Suc i < length L \<longrightarrow>
           Speaker (L ! Suc i) = Speaker (L ! i) + (if speaker_turn_next (raw ! i) then 1 else 0))"

text \<open>
  The invariant of the lock discipline: a call past \<^verbatim>\<open>Lock\<close> that has not returned
  holds the mutex of its model, the native call it is in is on that model, and no other
  call on that model is past \<^verbatim>\<open>Lock\<close>.
\<close>

definition lock_inv :: "(nat \<Rightarrow> call) \<Rightarrow> config \<Rightarrow> bool" where
  "lock_inv calls cf \<longleftrightarrow>
     (\<forall>t. holds_lock (pos cf t) \<longrightarrow>
        (\<exists>m. models (shared cf) (handle calls t) = Some m \<and> mutex m)
        \<and> (\<forall>ne. pos cf t = InNative ne \<longrightarrow> ne_model ne = handle calls t)
        \<and> (\<forall>u. u \<noteq> t \<and> handle calls u = handle calls t \<longrightarrow> \<not> holds_lock (pos cf u)))"

section \<open>Properties of readWAVFile\<close>

lemma or4_eq_add:
  fixes a b c d :: byte
  shows "(ucast a :: 64 word) OR push_bit 8 (ucast b) OR push_bit 16 (ucast c)
           OR push_bit 24 (ucast d)
       = ucast a + push_bit 8 (ucast b) + push_bit 16 (ucast c) + push_bit 24 (ucast d)"
proof -
  have 1: "(ucast a :: 64 word) + push_bit 8 (ucast b) = ucast a OR push_bit 8 (ucast b)"
    by (rule disjunctive_add) (auto simp: bit_simps dest: bit_imp_le_length)
  have 2: "((ucast a :: 64 word) OR push_bit 8 (ucast b)) + push_bit 16 (ucast c)
         = (ucast a OR push_bit 8 (ucast b)) OR push_bit 16 (ucast c)"
    by (rule disjunctive_add) (auto simp: bit_simps dest: bit_imp_le_length)
  have 3: "((ucast a :: 64 word) OR push_bit 8 (ucast b) OR push_bit 16 (ucast c))
             + push_bit 24 (ucast d)
         = (ucast a OR push_bit 8 (ucast b) OR push_bit 16 (ucast c)) OR push_bit 24 (ucast d)"
    by (rule disjunctive_add) (auto simp: bit_simps dest: bit_imp_le_length)
  show ?thesis using 1 2 3 by (simp add: or.assoc)
qed

lemma uint_byte_lt: "uint (b :: byte) < 256"
  using uint_bounded [of b] by simp

text \<open>The sample rate is the unsigned little-endian value of bytes 24 to 27.\<close>

lemma sample_rate_of_le32:
  "sample_rate_of data =
     uint (data ! 24) + 256 * uint (data ! 25) + 65536 * uint (data ! 26)
       + 16777216 * uint (data ! 27)"
proof -
  let ?n = "uint (data ! 24) + 256 * uint (data ! 25) + 65536 * uint (data ! 26)
              + 16777216 * uint (data ! 27)"
  have nonneg: "0 \<le> ?n"
    by simp
  have small: "?n < 2 ^ 32"
    using uint_byte_lt [of "data ! 24"] uint_byte_lt [of "data ! 25"]
      uint_byte_lt [of "data ! 26"] uint_byte_lt [of "data ! 27"]
    by simp
  have "- (2 ^ (LENGTH(64) - 1)) \<le> (0::int)"
    by simp
  with nonneg have lo: "- (2 ^ (LENGTH(64) - 1)) \<le> ?n"
    by (rule order_trans [rotated])
  have "(2::int) ^ 32 \<le> 2 ^ (LENGTH(64) - 1)"
    by simp
  with small have hi: "?n < 2 ^ (LENGTH(64) - 1)"
    by (rule less_le_trans)
  have "(word_of_int ?n :: 64 word)
      = (ucast (data ! 24) :: 64 word) + push_bit 8 (ucast (data ! 25))
          + push_bit 16 (ucast (data ! 26)) + push_bit 24 (ucast (data ! 27))"
    by (simp add: push_bit_eq_mult)
  then have "sample_rate_of data = sint (word_of_int ?n :: 64 word)"
    by (simp only: sample_rate_of_def or4_eq_add)
  also have "\<dots> = signed_take_bit (LENGTH(64) - 1) ?n"
    by (rule sint_sbintrunc')
  also have "\<dots> = ?n"
    using lo hi by (rule signed_take_bit_int_eq_self)
  finally show ?thesis .
qed

lemma find_data_absent:
  "\<forall>j. take 4 (drop j data) \<noteq> data_tag \<Longrightarrow> find_data data i = 44"
proof (induction data i rule: find_data.induct)
  case (1 data i)
  then show ?case
    by (subst find_data.simps) (simp add: go_slice_def)
qed

lemma no_tag_without_d:
  assumes "0x64 \<notin> set data"
  shows "take 4 (drop j data) \<noteq> data_tag"
proof
  assume "take 4 (drop j data) = data_tag"
  then have "0x64 \<in> set (take 4 (drop j data))"
    by (simp add: data_tag_def)
  then have "0x64 \<in> set data"
    by (meson in_set_takeD in_set_dropD)
  with assms show False by simp
qed

text \<open>
  C10. \<^verbatim>\<open>readWAVFile\<close> fails exactly when the file cannot be read, is shorter than 44
  bytes, or lacks \<^verbatim>\<open>RIFF\<close> at offset 0 or \<^verbatim>\<open>WAVE\<close> at offset 8. A readable file
  of at least 44 bytes with both tags and no \<^verbatim>\<open>data\<close> tag anywhere is accepted: the
  PCM bytes are the bytes from offset 44 on and the sample rate is the little-endian
  32-bit value of bytes 24 to 27, whatever follows the header.
\<close>

theorem readWAVFile_acceptance:
  "((\<exists>e. readWAVFile fs wavPath = Inl e) \<longleftrightarrow>
      (case fs wavPath of
         None \<Rightarrow> True
       | Some data \<Rightarrow>
           length data < 44 \<or> take 4 data \<noteq> RIFF \<or> take 4 (drop 8 data) \<noteq> WAVE))
   \<and> (\<forall>data. fs wavPath = Some data \<and> 44 \<le> length data \<and> take 4 data = RIFF
          \<and> take 4 (drop 8 data) = WAVE \<and> (\<forall>j. take 4 (drop j data) \<noteq> data_tag)
        \<longrightarrow> readWAVFile fs wavPath =
              Inr (drop 44 data,
                   uint (data ! 24) + 256 * uint (data ! 25) + 65536 * uint (data ! 26)
                     + 16777216 * uint (data ! 27)))"
proof (intro conjI allI impI)
  show "(\<exists>e. readWAVFile fs wavPath = Inl e) \<longleftrightarrow>
     (case fs wavPath of
        None \<Rightarrow> True
      | Some data \<Rightarrow> length data < 44 \<or> take 4 data \<noteq> RIFF \<or> take 4 (drop 8 data) \<noteq> WAVE)"
    by (simp add: readWAVFile_def go_slice_def Let_def split: option.splits)
next
  fix data
  assume "fs wavPath = Some data \<and> 44 \<le> length data \<and> take 4 data = RIFF
          \<and> take 4 (drop 8 data) = WAVE \<and> (\<forall>j. take 4 (drop j data) \<noteq> data_tag)"
  then show "readWAVFile fs wavPath =
     Inr (drop 44 data,
          uint (data ! 24) + 256 * uint (data ! 25) + 65536 * uint (data ! 26)
            + 16777216 * uint (data ! 27))"
    by (simp add: readWAVFile_def go_slice_def Let_def find_data_absent
        sample_rate_of_le32)
qed

theorem readWAVFile_acceptance_witness:
  "44 \<le> length wav46 \<and> take 4 wav46 = RIFF \<and> take 4 (drop 8 wav46) = WAVE
   \<and> (\<forall>j. take 4 (drop j wav46) \<noteq> data_tag)
   \<and> readWAVFile [''a.wav'' \<mapsto> wav46] ''a.wav'' = Inr ([1, 2], 16000)
   \<and> (\<exists>e. readWAVFile [''a.wav'' \<mapsto> take 43 wav46] ''a.wav'' = Inl e)"
proof -
  have len: "44 \<le> length wav46"
    by (simp add: wav46_def RIFF_def WAVE_def)
  have riff: "take 4 wav46 = RIFF"
    by (simp add: wav46_def RIFF_def)
  have wave: "take 4 (drop 8 wav46) = WAVE"
    by (simp add: wav46_def RIFF_def WAVE_def)
  have nod: "\<forall>j. take 4 (drop j wav46) \<noteq> data_tag"
    by (intro allI no_tag_without_d) (simp add: wav46_def RIFF_def WAVE_def)
  have ok: "readWAVFile [''a.wav'' \<mapsto> wav46] ''a.wav'' = Inr ([1, 2], 16000)"
    using readWAVFile_acceptance [of "[''a.wav'' \<mapsto> wav46]" "''a.wav''"]
      len riff wave nod
    by (simp add: wav46_def)
  have short: "\<exists>e. readWAVFile [''a.wav'' \<mapsto> take 43 wav46] ''a.wav'' = Inl e"
    using readWAVFile_acceptance [of "[''a.wav'' \<mapsto> take 43 wav46]" "''a.wav''"]
    by (simp add: wav46_def)
  from len riff wave nod ok short show ?thesis by blast
qed

section \<open>The model cache\<close>

text \<open>
  C3, as the code has it. The insert of lines 196 to 198 is an unconditional
  assignment: whatever the cache held for the path, it holds the just-loaded handle
  afterwards, the returned engine uses that handle, and the other paths keep theirs.
  A handle inserted earlier by another caller is not kept. A caller that finds a handle
  in the cache shares it and leaves the cache as it is.
\<close>

theorem engine_insert_overwrites:
  "modelCache (snd (engine_insert path cachedMdl s)) path = Some cachedMdl
   \<and> model (fst (engine_insert path cachedMdl s)) = cachedMdl
   \<and> (\<forall>q. q \<noteq> path \<longrightarrow> modelCache (snd (engine_insert path cachedMdl s)) q = modelCache s q)
   \<and> (\<forall>h. modelCache s path = Some h \<and> h \<noteq> 0 \<and> path \<noteq> [] \<and> files s path \<noteq> None \<longrightarrow>
         NewWhisperCGOEngine ev path s
           = (Inr \<lparr>model = h, modelPath = path, fromCache = True\<rparr>, s))"
  by (auto simp: engine_insert_def NewWhisperCGOEngine_def engine_lookup_def stat_not_exist_def)

lemma race_eval:
  "engine_lookup demo_env ''m.bin'' race0 = None"
  "engine_lookup demo_env ''m.bin'' race1 = None"
  "fst (engine_load demo_env ''m.bin'' race0) = Inr 2"
  "fst (engine_load demo_env ''m.bin'' race1) = Inr 4"
  "modelCache race3 ''m.bin'' = Some 2"
  "modelCache race4 ''m.bin'' = Some 4"
  "files race4 ''m.bin'' = Some []"
  by (simp_all add: race0_def race1_def race2_def race3_def race4_def engine_lookup_def stat_not_exist_def
      engine_load_def engine_insert_def alloc_def init_state_def demo_env_def demo_files_def
      Let_def)

theorem engine_insert_overwrites_witness:
  "modelCache race3 ''m.bin'' = Some 2
   \<and> modelCache (snd (engine_insert ''m.bin'' 4 race3)) ''m.bin'' = Some 4
   \<and> model (fst (engine_insert ''m.bin'' 4 race3)) = 4
   \<and> NewWhisperCGOEngine demo_env ''m.bin'' race4
       = (Inr \<lparr>model = 4, modelPath = ''m.bin'', fromCache = True\<rparr>, race4)"
proof -
  from engine_insert_overwrites [of "''m.bin''" 4 race3 demo_env]
  have a: "modelCache (snd (engine_insert ''m.bin'' 4 race3)) ''m.bin'' = Some 4"
    "model (fst (engine_insert ''m.bin'' 4 race3)) = 4"
    by simp_all
  from engine_insert_overwrites [of "''m.bin''" 0 race4 demo_env] race_eval(6,7)
  have b: "NewWhisperCGOEngine demo_env ''m.bin'' race4
       = (Inr \<lparr>model = 4, modelPath = ''m.bin'', fromCache = True\<rparr>, race4)"
    by simp
  from a b race_eval(5) show ?thesis by simp
qed

text \<open>
  C3 as the specification words it fails: both callers miss the cache and load; the first inserts
  handle 2; at the second's insert the cache maps the path to 2, and afterwards to the
  second's handle 4, which the second engine uses.
\<close>

theorem model_cache_insert_counterexample:
  "engine_lookup demo_env ''m.bin'' race0 = None
   \<and> fst (engine_load demo_env ''m.bin'' race0) = Inr 2
   \<and> engine_lookup demo_env ''m.bin'' race1 = None
   \<and> fst (engine_load demo_env ''m.bin'' race1) = Inr 4
   \<and> modelCache race3 ''m.bin'' = Some 2
   \<and> modelCache (snd (engine_insert ''m.bin'' 4 race3)) ''m.bin'' = Some 4
   \<and> model (fst (engine_insert ''m.bin'' 4 race3)) = 4"
  using race_eval by (simp add: engine_insert_def)

section \<open>The polling goroutine\<close>

lemma poll_loop_sorted:
  "sorted ticks \<Longrightarrow> \<forall>x\<in>set ticks. l \<le> x \<Longrightarrow>
     sorted_wrt (<) (poll_loop l ticks) \<and> (\<forall>v\<in>set (poll_loop l ticks). l < v)"
proof (induction ticks arbitrary: l)
  case Nil
  then show ?case by simp
next
  case (Cons x xs)
  from Cons.prems have sx: "sorted xs" and xle: "\<forall>y\<in>set xs. x \<le> y" and lx: "l \<le> x"
    by simp_all
  show ?case
  proof (cases "x = l")
    case True
    with Cons.IH [OF sx, of l] xle show ?thesis by simp
  next
    case False
    with lx have "l < x" by simp
    with Cons.IH [OF sx xle] False show ?thesis
      by (auto simp: sorted_wrt_append)
  qed
qed

lemma poll_loop_inrange:
  "\<forall>v\<in>set ticks. 0 < v \<and> v \<le> 100 \<Longrightarrow>
     distinct_adj (poll_loop l ticks)
     \<and> (poll_loop l ticks \<noteq> [] \<longrightarrow> hd (poll_loop l ticks) \<noteq> l)"
proof (induction ticks arbitrary: l)
  case Nil
  then show ?case by simp
next
  case (Cons x xs)
  from Cons.prems have rng: "0 < x" "x \<le> 100" and rest: "\<forall>v\<in>set xs. 0 < v \<and> v \<le> 100"
    by simp_all
  show ?case
  proof (cases "x = l")
    case True
    with Cons.IH [OF rest, of l] show ?thesis by simp
  next
    case False
    with rng have "poll_loop l (x # xs) = x # poll_loop x xs" by simp
    with Cons.IH [OF rest, of x] False show ?thesis
      by (auto simp: distinct_adj_Cons)
  qed
qed

lemma strict_sorted_distinct_adj: "sorted_wrt (<) (xs :: int list) \<Longrightarrow> distinct_adj xs"
  by (induction xs) (auto simp: distinct_adj_Cons)

lemma poll_loop_sorted_any:
  assumes "sorted ticks"
  shows "sorted_wrt (<) (poll_loop l ticks)"
proof (cases ticks)
  case Nil
  then show ?thesis by simp
next
  case (Cons x xs)
  with assms have sx: "sorted xs" and xle: "\<forall>y\<in>set xs. x \<le> y"
    by simp_all
  from poll_loop_sorted [OF sx xle]
  have "sorted_wrt (<) (poll_loop x xs)" "\<forall>v\<in>set (poll_loop x xs). x < v"
    by simp_all
  with Cons show ?thesis
    by (auto simp: sorted_wrt_append)
qed

lemma filter_hd_tl:
  "ys \<noteq> [] \<Longrightarrow> filter P ys = (if P (hd ys) then [hd ys] else []) @ filter P (tl ys)"
  by (cases ys) auto

lemma poll_loop_changes:
  "poll_loop l ticks = filter (\<lambda>v. 0 < v \<and> v \<le> 100) (tl (remdups_adj (l # ticks)))"
proof (induction ticks arbitrary: l)
  case Nil
  show ?case by simp
next
  case (Cons x xs)
  show ?case
  proof (cases "x = l")
    case True
    with Cons.IH [of l] show ?thesis by simp
  next
    case False
    let ?P = "\<lambda>v::int. 0 < v \<and> v \<le> 100"
    have k: "filter ?P (remdups_adj (x # xs))
           = (if ?P x then [x] else []) @ filter ?P (tl (remdups_adj (x # xs)))"
      using filter_hd_tl [of "remdups_adj (x # xs)" ?P] by simp
    from False have "poll_loop l (x # xs) = (if ?P x then [x] else []) @ poll_loop x xs"
      by simp
    also have "\<dots> = filter ?P (remdups_adj (x # xs))"
      unfolding k Cons.IH [of x] ..
    also have "\<dots> = filter ?P (tl (remdups_adj (l # x # xs)))"
      using False by simp
    finally show ?thesis .
  qed
qed

text \<open>
  C9, as the code has it. The goroutine compares each sample with the previous
  sample, not with the previous message, and announces only values in \<open>1..100\<close>: the
  messages are exactly the samples in \<open>1..100\<close> that differ from the sample before them
  (the first one from the initial \<open>-1\<close>). Two consecutive messages carry different values
  whenever the sampled values never decrease, or all lie in \<open>1..100\<close>.
\<close>

theorem poll_dedup_amended:
  "poll_loop (- 1) ticks = filter (\<lambda>v. 0 < v \<and> v \<le> 100) (tl (remdups_adj (- 1 # ticks)))
   \<and> (sorted ticks \<or> (\<forall>v\<in>set ticks. 0 < v \<and> v \<le> 100)
        \<longrightarrow> distinct_adj (poll_loop (- 1) ticks))"
proof (intro conjI impI)
  show "poll_loop (- 1) ticks
      = filter (\<lambda>v. 0 < v \<and> v \<le> 100) (tl (remdups_adj (- 1 # ticks)))"
    by (rule poll_loop_changes)
next
  assume "sorted ticks \<or> (\<forall>v\<in>set ticks. 0 < v \<and> v \<le> 100)"
  then show "distinct_adj (poll_loop (- 1) ticks)"
  proof
    assume "sorted ticks"
    then show ?thesis
      by (intro strict_sorted_distinct_adj poll_loop_sorted_any)
  next
    assume "\<forall>v\<in>set ticks. 0 < v \<and> v \<le> 100"
    then show ?thesis
      using poll_loop_inrange by blast
  qed
qed

theorem poll_dedup_amended_witness:
  "sorted [0, 0, 5, 5, 10 :: int] \<and> distinct_adj (poll_loop (- 1) [0, 0, 5, 5, 10])
   \<and> poll_loop (- 1) [0, 0, 5, 5, 10] = [5, 10]"
  using poll_dedup_amended [of "[0, 0, 5, 5, 10]"] by simp

text \<open>
  C9 as the specification words it fails for the samples 5, 0, 5: the 0 is not announced but
  replaces the remembered value, so 5 is announced twice in a row.
\<close>

theorem poll_dedup_counterexample:
  "poll_loop (- 1) [5, 0, 5] = [5, 5] \<and> \<not> distinct_adj (poll_loop (- 1) [5, 0, 5])"
  by simp

section \<open>What each part of a call changes\<close>

lemmas swa_defs = setup_with_audio_def alloc_def register_callbacks_def cleanup_callbacks_def
        on_return_def say_def Let_def

lemma say_no_native: "\<forall>x\<in>set (say progressCb m). \<not> is_NativeCall x"
  by (cases progressCb) (simp_all add: say_def)

lemma emit_no_native: "\<forall>x\<in>set (emit segmentCb segs). \<not> is_NativeCall x"
  by (cases segmentCb) (auto simp: emit_def)

lemma setup_with_audio_Return:
  assumes "setup_with_audio mdl c tempWav cpuThreads translateTo progressCb audioData s
            = (Return r, s', tr)"
  shows "r = Inl IndexOutOfRangePanic
    \<and> transcriptionCache s' = transcriptionCache s
    \<and> modelCache s' = modelCache s
    \<and> models s' = models s
    \<and> contexts s' = contexts s
    \<and> files s' = files s
    \<and> (\<forall>x\<in>set tr. \<not> is_NativeCall x)
    \<and> (callbackIDCounter s \<noteq> 0 \<longrightarrow> registry_restored s s')"
  by (cases progressCb;
      use assms in \<open>simp add: swa_defs registry_restored_def split: if_splits\<close>; clarsimp)

lemma setup_with_audio_Enter:
  assumes "setup_with_audio mdl c tempWav cpuThreads translateTo progressCb audioData s
            = (Enter ne, s', tr)"
  shows "ne_model ne = mdl \<and> ne_ctx ne = c \<and> ne_tempWav ne = tempWav
    \<and> ne_samples ne \<noteq> []
    \<and> transcriptionCache s' = transcriptionCache s
    \<and> modelCache s' = modelCache s
    \<and> models s' = models s
    \<and> contexts s' = contexts s
    \<and> files s' = files s
    \<and> (\<forall>x\<in>set tr. \<not> is_NativeCall x)
    \<and> translate (ne_params ne) = (translateTo = ''en'')
    \<and> ne_cell ne \<noteq> 0 \<and> cells s' (ne_cell ne) = Some 0
    \<and> (case progressCb of
         None \<Rightarrow>
           callbackRegistry s' = callbackRegistry s \<and> callbackIDCounter s' = callbackIDCounter s
           \<and> ne_callbackID ne = 0 \<and> \<not> progress_callback (ne_params ne)
       | Some f \<Rightarrow>
           callbackRegistry s' = (callbackRegistry s)(callbackIDCounter s \<mapsto>
               \<lparr>progressCallback = None, segmentCallback = None, cb_ctx = c,
                currentSpeaker = 0, progressPercent = ne_cell ne\<rparr>)
           \<and> callbackIDCounter s' = callbackIDCounter s + 1
           \<and> ne_callbackID ne = callbackIDCounter s
           \<and> progress_callback (ne_params ne)
           \<and> progress_callback_user_data (ne_params ne) = callbackIDCounter s)"
  by (cases progressCb; use assms in \<open>simp add: swa_defs split: if_splits\<close>; clarsimp)

lemma on_return_Return:
  "on_return d r = (Return res, s', tr) \<longleftrightarrow> (\<exists>s0. r = (Return res, s0, tr) \<and> s' = d s0)"
  by (cases r rule: prod_cases3; cases "fst r"; auto simp: on_return_def)

lemma on_return_Enter:
  "on_return d r = (Enter ne, s', tr) \<longleftrightarrow> r = (Enter ne, s', tr)"
  by (cases r rule: prod_cases3; cases "fst r"; auto simp: on_return_def)

lemma prepareAudioFile_frame:
  assumes "prepareAudioFile ev audioPath progressCb s = (r, s1, tr)"
  shows "transcriptionCache s1 = transcriptionCache s
    \<and> modelCache s1 = modelCache s
    \<and> models s1 = models s
    \<and> contexts s1 = contexts s
    \<and> callbackRegistry s1 = callbackRegistry s
    \<and> callbackIDCounter s1 = callbackIDCounter s
    \<and> (\<forall>x\<in>set tr. \<not> is_NativeCall x)"
  by (cases progressCb;
      use assms in \<open>auto simp: prepareAudioFile_def say_def Let_def split: option.splits\<close>)

lemma setup_locked_Return:
  assumes "setup_locked ev mdl c audioPath modelID cpuThreads translateTo progressCb s
            = (Return r, s', tr)"
  shows "(\<exists>err. r = Inl err \<and> err \<noteq> Blocked)
    \<and> transcriptionCache s' = transcriptionCache s
    \<and> modelCache s' = modelCache s
    \<and> models s' = models s
    \<and> contexts s' = contexts s
    \<and> (\<forall>x\<in>set tr. \<not> is_NativeCall x)
    \<and> (callbackIDCounter s \<noteq> 0 \<longrightarrow> registry_restored s s')"
proof -
  obtain pr s1 tr2 where prep: "prepareAudioFile ev audioPath progressCb s = (pr, s1, tr2)"
    by (cases "prepareAudioFile ev audioPath progressCb s" rule: prod_cases3)
  note pf = prepareAudioFile_frame [OF prep]
  note sn = say_no_native [of progressCb "TranscribingWithModel modelID"]
  show ?thesis
  proof (cases pr)
    case (Inl err)
    with assms prep pf sn show ?thesis
      by (auto simp: setup_locked_def Let_def registry_restored_def)
  next
    case (Inr tempWav)
    show ?thesis
    proof (cases "readWAVFile (files s1) tempWav")
      case (Inl err)
      with assms prep pf sn Inr show ?thesis
        by (auto simp: setup_locked_def Let_def registry_restored_def on_return_Return os_Remove_def)
    next
      case rd: (Inr ad)
      obtain audioData sampleRate where ad: "ad = (audioData, sampleRate)" by (cases ad)
      show ?thesis
      proof (cases "sampleRate = 16000")
        case False
        with assms prep pf sn Inr rd ad show ?thesis
          by (auto simp: setup_locked_def Let_def registry_restored_def on_return_Return os_Remove_def)
      next
        case True
        obtain st s2 tr3 where swa: "setup_with_audio mdl c tempWav cpuThreads translateTo progressCb
                           audioData s1 = (st, s2, tr3)"
          by (cases "setup_with_audio mdl c tempWav cpuThreads translateTo progressCb
                           audioData s1" rule: prod_cases3)
        with assms prep Inr rd ad True have st: "st = Return r" and s': "s' = os_Remove tempWav s2"
          and tr: "tr = say progressCb (TranscribingWithModel modelID) @ tr2 @ tr3"
          by (auto simp: setup_locked_def Let_def on_return_Return)
        from setup_with_audio_Return [OF swa [unfolded st]] pf sn s' tr show ?thesis
          by (auto simp: os_Remove_def registry_restored_def)
      qed
    qed
  qed
qed

lemma setup_locked_Enter:
  assumes "setup_locked ev mdl c audioPath modelID cpuThreads translateTo progressCb s
            = (Enter ne, s', tr)"
  shows "ne_model ne = mdl \<and> ne_ctx ne = c
    \<and> ne_samples ne \<noteq> []
    \<and> transcriptionCache s' = transcriptionCache s
    \<and> modelCache s' = modelCache s
    \<and> models s' = models s
    \<and> contexts s' = contexts s
    \<and> (\<forall>x\<in>set tr. \<not> is_NativeCall x)
    \<and> translate (ne_params ne) = (translateTo = ''en'')
    \<and> ne_cell ne \<noteq> 0 \<and> cells s' (ne_cell ne) = Some 0
    \<and> (case progressCb of
         None \<Rightarrow>
           callbackRegistry s' = callbackRegistry s \<and> callbackIDCounter s' = callbackIDCounter s
           \<and> ne_callbackID ne = 0 \<and> \<not> progress_callback (ne_params ne)
       | Some f \<Rightarrow>
           callbackRegistry s' = (callbackRegistry s)(callbackIDCounter s \<mapsto>
               \<lparr>progressCallback = None, segmentCallback = None, cb_ctx = c,
                currentSpeaker = 0, progressPercent = ne_cell ne\<rparr>)
           \<and> callbackIDCounter s' = callbackIDCounter s + 1
           \<and> ne_callbackID ne = callbackIDCounter s
           \<and> progress_callback (ne_params ne)
           \<and> progress_callback_user_data (ne_params ne) = callbackIDCounter s)"
proof -
  obtain pr s1 tr2 where prep: "prepareAudioFile ev audioPath progressCb s = (pr, s1, tr2)"
    by (cases "prepareAudioFile ev audioPath progressCb s" rule: prod_cases3)
  note pf = prepareAudioFile_frame [OF prep]
  note sn = say_no_native [of progressCb "TranscribingWithModel modelID"]
  from assms prep obtain tempWav audioData tr3
    where swa: "setup_with_audio mdl c tempWav cpuThreads translateTo progressCb audioData s1
                 = (Enter ne, s', tr3)"
      and tr: "tr = say progressCb (TranscribingWithModel modelID) @ tr2 @ tr3"
    by (auto simp: setup_locked_def Let_def on_return_Enter
        split: sum.splits prod.splits if_splits)
  from setup_with_audio_Enter [OF swa] pf sn tr show ?thesis
    by (cases progressCb) auto
qed

lemma set_mutex_fields [simp]:
  "transcriptionCache (set_mutex p b s) = transcriptionCache s"
  "modelCache (set_mutex p b s) = modelCache s"
  "contexts (set_mutex p b s) = contexts s"
  "callbackRegistry (set_mutex p b s) = callbackRegistry s"
  "callbackIDCounter (set_mutex p b s) = callbackIDCounter s"
  "files (set_mutex p b s) = files s"
  "cells (set_mutex p b s) = cells s"
  by (simp_all add: set_mutex_def split: option.splits)

lemma registry_restored_set_mutex [simp]:
  "registry_restored (set_mutex p b s) s' = registry_restored s s'"
  "registry_restored s (set_mutex p b s') = registry_restored s s'"
  by (simp_all add: registry_restored_def)

lemma lock_unlock:
  assumes "models s p = Some m" and "\<not> mutex m" and "models s1 = models (set_mutex p True s)"
  shows "models (set_mutex p False s1) = models s"
proof -
  from assms(2) have "m\<lparr>mutex := False\<rparr> = m" by simp
  with assms(1,3) show ?thesis
    by (simp add: set_mutex_def fun_upd_idem)
qed

lemma transcribe_setup_cached:
  assumes "engine_ok e s" and "transcriptionCache s (audioPath, modelID) = Some L"
  shows "transcribe_setup ev e audioPath modelID cpuThreads [] progressCb segmentCb s
       = (Return (Inr L), s,
          say progressCb UsingCached @ emit segmentCb L @ say progressCb (LoadedCached (length L)))"
  using assms by (auto simp: transcribe_setup_def engine_ok_def)

lemma transcribe_setup_Return:
  assumes "transcribe_setup ev e audioPath modelID cpuThreads translateTo progressCb
             segmentCb s = (Return r, s', tr)"
  shows "transcriptionCache s' = transcriptionCache s
    \<and> modelCache s' = modelCache s
    \<and> models s' = models s
    \<and> contexts s' = contexts s
    \<and> (\<forall>x\<in>set tr. \<not> is_NativeCall x)
    \<and> (callbackIDCounter s \<noteq> 0 \<longrightarrow> registry_restored s s')
    \<and> (\<forall>L. r = Inr L \<longrightarrow>
          translateTo = [] \<and> transcriptionCache s (audioPath, modelID) = Some L \<and> s' = s
          \<and> engine_ok e s
          \<and> tr = say progressCb UsingCached @ emit segmentCb L
                   @ say progressCb (LoadedCached (length L)))"
proof (cases "if model e = 0 then None else models s (model e)")
  case None
  with assms show ?thesis
    by (auto simp: transcribe_setup_def registry_restored_def)
next
  case (Some m)
  then have me: "model e \<noteq> 0" and mm: "models s (model e) = Some m"
    by (simp_all split: if_splits)
  show ?thesis
  proof (cases "ctx m = 0")
    case True
    with assms Some show ?thesis
      by (auto simp: transcribe_setup_def registry_restored_def)
  next
    case cm: False
    show ?thesis
    proof (cases "if translateTo = [] then transcriptionCache s (audioPath, modelID) else None")
      case hit: (Some L)
      with assms Some cm me mm show ?thesis
        by (auto simp: transcribe_setup_def registry_restored_def engine_ok_def
            say_no_native emit_no_native split: if_splits)
    next
      case miss: None
      show ?thesis
      proof (cases "mutex m")
        case True
        with assms Some cm miss show ?thesis
          by (auto simp: transcribe_setup_def registry_restored_def)
      next
        case False
        with assms Some cm miss obtain s0 where
          sl: "setup_locked ev (model e) (ctx m) audioPath modelID cpuThreads
                 translateTo progressCb (set_mutex (model e) True s) = (Return r, s0, tr)"
          and s': "s' = set_mutex (model e) False s0"
          by (auto simp: transcribe_setup_def on_return_Return)
        note f = setup_locked_Return [OF sl]
        from f have m0: "models s0 = models (set_mutex (model e) True s)" by simp
        from lock_unlock [OF mm False m0] f s' show ?thesis
          by auto
      qed
    qed
  qed
qed

lemma transcribe_setup_Enter:
  assumes "transcribe_setup ev e audioPath modelID cpuThreads translateTo progressCb
             segmentCb s = (Enter ne, s', tr)"
  shows "(\<exists>m. model e \<noteq> 0 \<and> models s (model e) = Some m \<and> ctx m \<noteq> 0 \<and> \<not> mutex m
            \<and> models s' = (models s)(model e \<mapsto> m\<lparr>mutex := True\<rparr>)
            \<and> ne_ctx ne = ctx m)
    \<and> (translateTo = [] \<longrightarrow> transcriptionCache s (audioPath, modelID) = None)
    \<and> ne_model ne = model e
    \<and> ne_samples ne \<noteq> []
    \<and> transcriptionCache s' = transcriptionCache s
    \<and> modelCache s' = modelCache s
    \<and> contexts s' = contexts s
    \<and> (\<forall>x\<in>set tr. \<not> is_NativeCall x)
    \<and> translate (ne_params ne) = (translateTo = ''en'')
    \<and> ne_cell ne \<noteq> 0 \<and> cells s' (ne_cell ne) = Some 0
    \<and> (case progressCb of
         None \<Rightarrow>
           callbackRegistry s' = callbackRegistry s \<and> callbackIDCounter s' = callbackIDCounter s
           \<and> ne_callbackID ne = 0 \<and> \<not> progress_callback (ne_params ne)
       | Some f \<Rightarrow>
           callbackRegistry s' = (callbackRegistry s)(callbackIDCounter s \<mapsto>
               \<lparr>progressCallback = None, segmentCallback = None, cb_ctx = ne_ctx ne,
                currentSpeaker = 0, progressPercent = ne_cell ne\<rparr>)
           \<and> callbackIDCounter s' = callbackIDCounter s + 1
           \<and> ne_callbackID ne = callbackIDCounter s
           \<and> progress_callback (ne_params ne)
           \<and> progress_callback_user_data (ne_params ne) = callbackIDCounter s)"
proof -
  from assms obtain m where me: "model e \<noteq> 0" and mm: "models s (model e) = Some m"
    and cm: "ctx m \<noteq> 0" and mu: "\<not> mutex m"
    and miss: "translateTo = [] \<longrightarrow> transcriptionCache s (audioPath, modelID) = None"
    and sl: "setup_locked ev (model e) (ctx m) audioPath modelID cpuThreads
                 translateTo progressCb (set_mutex (model e) True s) = (Enter ne, s', tr)"
    by (auto simp: transcribe_setup_def on_return_Enter split: option.splits if_splits)
  from mm have "models (set_mutex (model e) True s) = (models s)(model e \<mapsto> m\<lparr>mutex := True\<rparr>)"
    by (simp add: set_mutex_def)
  with setup_locked_Enter [OF sl] me mm cm mu miss show ?thesis
    by (cases progressCb) auto
qed

lemma run_timeline_cells:
  "run_timeline params cell evs s = (s', vs) \<Longrightarrow> \<exists>cs. s' = s\<lparr>cells := cs\<rparr>"
proof (induction evs arbitrary: s s' vs)
  case Nil
  then have "s' = s\<lparr>cells := cells s\<rparr>" by simp
  then show ?case by blast
next
  case (Cons ev evs)
  show ?case
  proof (cases ev)
    case (Report p)
    let ?s1 = "if progress_callback params
        then whisper_progress_callback_go (progress_callback_user_data params) p s else s"
    have "\<exists>c1. ?s1 = s\<lparr>cells := c1\<rparr>"
    proof (cases "?s1 = s")
      case True
      then have "?s1 = s\<lparr>cells := cells s\<rparr>" by simp
      then show ?thesis by blast
    next
      case False
      then show ?thesis
        by (auto simp: whisper_progress_callback_go_def split: option.splits if_splits)
    qed
    then obtain c1 where a: "?s1 = s\<lparr>cells := c1\<rparr>" by blast
    from Cons.prems Report have "run_timeline params cell evs ?s1 = (s', vs)"
      by simp
    from Cons.IH [OF this] obtain cs where "s' = ?s1\<lparr>cells := cs\<rparr>" by blast
    then have "s' = s\<lparr>cells := cs\<rparr>"
      unfolding a by simp
    then show ?thesis by blast
  next
    case Tick
    with Cons.prems obtain vs' where "run_timeline params cell evs s = (s', vs')"
      by (auto simp: Let_def split: prod.splits)
    from Cons.IH [OF this] show ?thesis .
  qed
qed

lemma models_set_mutex:
  "models (set_mutex p b s) =
     (case models s p of None \<Rightarrow> models s | Some m \<Rightarrow> (models s)(p \<mapsto> m\<lparr>mutex := b\<rparr>))"
  by (simp add: set_mutex_def split: option.splits)

lemma transcribe_native_result:
  assumes "transcribe_native ev ne audioPath modelID translateTo progressCb segmentCb s
             = (res, s', tr)"
  defines "run \<equiv> whisper_full ev (ne_ctx ne) (ne_params ne) (ne_samples ne)"
  defines "segments \<equiv> extract_segments ev (produced run) 0 0"
  shows "NativeCall (ne_ctx ne) (ne_params ne) (ne_samples ne) \<in> set tr
    \<and> (\<forall>x\<in>set tr. is_NativeCall x \<longrightarrow> x = NativeCall (ne_ctx ne) (ne_params ne) (ne_samples ne))
    \<and> modelCache s' = modelCache s
    \<and> callbackIDCounter s' = callbackIDCounter s
    \<and> callbackRegistry s' =
         (if ne_callbackID ne \<noteq> 0 then (callbackRegistry s)(ne_callbackID ne := None)
          else callbackRegistry s)
    \<and> models s' = models (set_mutex (ne_model ne) False s)
    \<and> contexts s' = (contexts s)(ne_ctx ne \<mapsto> produced run)
    \<and> (status run \<noteq> 0 \<longrightarrow>
          res = Inl (InferenceFailure (status run))
          \<and> transcriptionCache s' = transcriptionCache s)
    \<and> (status run = 0 \<longrightarrow>
          res = Inr segments
          \<and> transcriptionCache s' =
              (if translateTo = []
               then (transcriptionCache s)((audioPath, modelID) \<mapsto> segments)
               else transcriptionCache s))"
proof -
  obtain sa ticks where rt: "run_timeline (ne_params ne) (ne_cell ne) (timeline run) s = (sa, ticks)"
    by (cases "run_timeline (ne_params ne) (ne_cell ne) (timeline run) s")
  from run_timeline_cells [OF rt] obtain cs where sa: "sa = s\<lparr>cells := cs\<rparr>"
    by blast
  have polled: "\<forall>x\<in>set (case progressCb of None \<Rightarrow> []
          | Some f \<Rightarrow> map (\<lambda>v. ProgressEv f (TranscribingPercent v)) (poll_loop (- 1) ticks)).
        \<not> is_NativeCall x"
    by (cases progressCb) auto
  let ?nc = "NativeCall (ne_ctx ne) (ne_params ne) (ne_samples ne)"
  let ?polled = "case progressCb of None \<Rightarrow> []
          | Some f \<Rightarrow> map (\<lambda>v. ProgressEv f (TranscribingPercent v)) (poll_loop (- 1) ticks)"
  let ?s2 = "sa\<lparr>contexts := (contexts sa)(ne_ctx ne \<mapsto> produced run)\<rparr>"
  let ?s3 = "if translateTo = []
             then ?s2\<lparr>transcriptionCache :=
                       (transcriptionCache ?s2)((audioPath, modelID) \<mapsto> segments)\<rparr>
             else ?s2"
  have deferred: "modelCache (run_deferred ne x) = modelCache x"
    "callbackIDCounter (run_deferred ne x) = callbackIDCounter x"
    "callbackRegistry (run_deferred ne x) =
       (if ne_callbackID ne \<noteq> 0 then (callbackRegistry x)(ne_callbackID ne := None)
        else callbackRegistry x)"
    "contexts (run_deferred ne x) = contexts x"
    "transcriptionCache (run_deferred ne x) = transcriptionCache x" for x
    by (simp_all add: run_deferred_def cleanup_callbacks_def os_Remove_def)
  have inner: "models (os_Remove (ne_tempWav ne) (cleanup_callbacks (ne_callbackID ne) x))
                 = models x" for x
    by (simp add: cleanup_callbacks_def os_Remove_def)
  have deferred_models: "models x = models s \<Longrightarrow>
      models (run_deferred ne x) = models (set_mutex (ne_model ne) False s)" for x
    unfolding run_deferred_def models_set_mutex inner by (simp split: option.splits)
  have nc_polled: "\<forall>x\<in>set (?nc # ?polled). is_NativeCall x \<longrightarrow> x = ?nc"
    using polled by simp
  show ?thesis
  proof (cases "status run = 0")
    case False
    from assms(1) rt False have r: "res = Inl (InferenceFailure (status run))"
      and s': "s' = run_deferred ne ?s2" and tr: "tr = ?nc # ?polled"
      unfolding run_def by (simp_all add: transcribe_native_def Let_def)
    have m: "models ?s2 = models s" by (simp add: sa)
    have 1: "?nc \<in> set tr" by (simp add: tr)
    have 2: "\<forall>x\<in>set tr. is_NativeCall x \<longrightarrow> x = ?nc"
      unfolding tr by (rule nc_polled)
    have 3: "modelCache s' = modelCache s" "callbackIDCounter s' = callbackIDCounter s"
      "callbackRegistry s' =
         (if ne_callbackID ne \<noteq> 0 then (callbackRegistry s)(ne_callbackID ne := None)
          else callbackRegistry s)"
      "contexts s' = (contexts s)(ne_ctx ne \<mapsto> produced run)"
      "transcriptionCache s' = transcriptionCache s"
      by (simp_all add: s' deferred sa)
    have 4: "models s' = models (set_mutex (ne_model ne) False s)"
      unfolding s' by (rule deferred_models [OF m])
    show ?thesis
      apply (intro conjI impI)
      apply (rule 1)
      apply (rule 2)
      apply (rule 3(1))
      apply (rule 3(2))
      apply (rule 3(3))
      apply (rule 4)
      apply (rule 3(4))
      apply (rule r)
      apply (rule 3(5))
      using False apply simp
      using False apply simp
      done
  next
    case True
    from assms(1) rt True have r: "res = Inr segments"
      and s': "s' = run_deferred ne ?s3"
      and tr: "tr = (?nc # ?polled) @ say progressCb (ProcessingSegments (length (produced run)))
                 @ emit segmentCb segments
                 @ say progressCb (TranscriptionComplete (length segments))"
      unfolding run_def segments_def by (simp_all add: transcribe_native_def Let_def)
    have m: "models ?s3 = models s" by (simp add: sa)
    have 1: "?nc \<in> set tr" by (simp add: tr)
    have 2: "\<forall>x\<in>set tr. is_NativeCall x \<longrightarrow> x = ?nc"
      unfolding tr using nc_polled say_no_native emit_no_native
      by (metis Un_iff set_append)
    have 3: "modelCache s' = modelCache s" "callbackIDCounter s' = callbackIDCounter s"
      "callbackRegistry s' =
         (if ne_callbackID ne \<noteq> 0 then (callbackRegistry s)(ne_callbackID ne := None)
          else callbackRegistry s)"
      "contexts s' = (contexts s)(ne_ctx ne \<mapsto> produced run)"
      "transcriptionCache s' =
              (if translateTo = []
               then (transcriptionCache s)((audioPath, modelID) \<mapsto> segments)
               else transcriptionCache s)"
      by (simp_all add: s' deferred sa)
    have 4: "models s' = models (set_mutex (ne_model ne) False s)"
      unfolding s' by (rule deferred_models [OF m])
    show ?thesis
      apply (intro conjI impI)
      apply (rule 1)
      apply (rule 2)
      apply (rule 3(1))
      apply (rule 3(2))
      apply (rule 3(3))
      apply (rule 4)
      apply (rule 3(4))
      using True apply simp
      using True apply simp
      apply (rule r)
      apply (rule 3(5))
      done
  qed
qed

lemma TranscribeWithTranslation_cases:
  assumes "TranscribeWithTranslation ev e audioPath modelID cpuThreads translateTo progressCb
             segmentCb s = (res, s', tr)"
  obtains (early) "transcribe_setup ev e audioPath modelID cpuThreads translateTo progressCb
                     segmentCb s = (Return res, s', tr)"
  | (native) ne s1 tr1 tr2 where
      "transcribe_setup ev e audioPath modelID cpuThreads translateTo progressCb
         segmentCb s = (Enter ne, s1, tr1)"
      "transcribe_native ev ne audioPath modelID translateTo progressCb segmentCb s1
         = (res, s', tr2)"
      "tr = tr1 @ tr2"
proof -
  obtain st s1 tr1 where su: "transcribe_setup ev e audioPath modelID cpuThreads translateTo
      progressCb segmentCb s = (st, s1, tr1)"
    by (cases "transcribe_setup ev e audioPath modelID cpuThreads translateTo
      progressCb segmentCb s" rule: prod_cases3)
  show thesis
  proof (cases st)
    case (Return r)
    with assms su have "r = res" "s1 = s'" "tr1 = tr"
      by (simp_all add: TranscribeWithTranslation_def)
    with su Return show thesis by (intro early) simp
  next
    case (Enter ne)
    obtain r2 s2 tr2 where tn: "transcribe_native ev ne audioPath modelID translateTo
        progressCb segmentCb s1 = (r2, s2, tr2)"
      by (cases "transcribe_native ev ne audioPath modelID translateTo
        progressCb segmentCb s1" rule: prod_cases3)
    with assms su Enter have "r2 = res" "s2 = s'" "tr = tr1 @ tr2"
      by (simp_all add: TranscribeWithTranslation_def)
    with su Enter tn show thesis by (intro native [of ne s1 tr1 tr2]) simp_all
  qed
qed

lemma models_set_mutex_other:
  "q \<noteq> p \<Longrightarrow> models (set_mutex p b s) q = models s q"
  by (simp add: set_mutex_def split: option.splits)

lemma models_set_mutex_same:
  "models s p = Some m \<Longrightarrow> models (set_mutex p b s) p = Some (m\<lparr>mutex := b\<rparr>)"
  by (simp add: set_mutex_def)








section \<open>The example call\<close>

lemma readWAV_demo: "readWAVFile (fs(p \<mapsto> wav46)) p = Inr ([1, 2], 16000)"
  by (simp add: readWAVFile_def wav46_def go_slice_def RIFF_def WAVE_def sample_rate_of_def
      Let_def find_data.simps data_tag_def)

lemma extract_demo: "extract_segments demo_env demo_raw 0 0 = demo_segments"
  by (simp add: extract_segments.simps demo_raw_def demo_env_def demo_segments_def)

lemma demo_setup:
  "transcribe_setup demo_env demo_engine ''a.wav'' ''turbo'' cpuThreads [] (Some 5) (Some 7)
       demo_state
     = (Enter (demo_entry cpuThreads), demo_mid,
        [ProgressEv 5 (TranscribingWithModel ''turbo''), ProgressEv 5 PreparingAudio,
         ProgressEv 5 StartingTranscription])"
  apply (simp add: transcribe_setup_def demo_state_def demo_engine_def set_mutex_def)
  apply (simp add: setup_locked_def prepareAudioFile_def demo_env_def say_def readWAV_demo)
  apply (simp add: setup_with_audio_def alloc_def register_callbacks_def cleanup_callbacks_def
      on_return_def to_samples_def say_def Let_def os_Remove_def demo_entry_def demo_mid_def
      demo_files_def)
  done


lemma demo_run:
  "status (whisper_full demo_env (ne_ctx (demo_entry n)) (ne_params (demo_entry n))
             (ne_samples (demo_entry n))) = (if (word_of_int n :: 32 word) = 0 then 3 else 0)"
  "produced (whisper_full demo_env (ne_ctx (demo_entry n)) (ne_params (demo_entry n))
             (ne_samples (demo_entry n))) = demo_raw"
  by (simp_all add: demo_env_def demo_entry_def)

lemma demo_call_native:
  "\<exists>tr2. transcribe_native demo_env (demo_entry n) ''a.wav'' ''turbo'' [] (Some 5) (Some 7)
            demo_mid = (fst (demo_call n []), fst (snd (demo_call n [])), tr2)
         \<and> snd (snd (demo_call n [])) =
             [ProgressEv 5 (TranscribingWithModel ''turbo''), ProgressEv 5 PreparingAudio,
              ProgressEv 5 StartingTranscription] @ tr2"
  by (cases "transcribe_native demo_env (demo_entry n) ''a.wav'' ''turbo'' [] (Some 5) (Some 7)
            demo_mid" rule: prod_cases3)
    (simp add: demo_call_def TranscribeWithTranslation_def demo_setup)

lemma demo_call_ok:
  "fst (demo_call 4 []) = Inr demo_segments"
  "callbackIDCounter (fst (snd (demo_call 4 []))) = 2"
  "NativeCall 1 (ne_params (demo_entry 4)) [513 / 32768] \<in> set (snd (snd (demo_call 4 [])))"
proof -
  from demo_call_native [of 4] obtain tr2 where
    tn: "transcribe_native demo_env (demo_entry 4) ''a.wav'' ''turbo'' [] (Some 5) (Some 7)
            demo_mid = (fst (demo_call 4 []), fst (snd (demo_call 4 [])), tr2)"
    and tr: "snd (snd (demo_call 4 [])) =
             [ProgressEv 5 (TranscribingWithModel ''turbo''), ProgressEv 5 PreparingAudio,
              ProgressEv 5 StartingTranscription] @ tr2"
    by blast
  note r = transcribe_native_result [OF tn, unfolded demo_run]
  from r show "fst (demo_call 4 []) = Inr demo_segments"
    by (simp add: extract_demo)
  from r show "callbackIDCounter (fst (snd (demo_call 4 []))) = 2"
    by (simp add: demo_mid_def)
  from r have "NativeCall (ne_ctx (demo_entry 4)) (ne_params (demo_entry 4))
       (ne_samples (demo_entry 4)) \<in> set tr2"
    by blast
  then show "NativeCall 1 (ne_params (demo_entry 4)) [513 / 32768] \<in> set (snd (snd (demo_call 4 [])))"
    by (simp add: tr demo_entry_def)
qed

lemma demo_call_trace:
  "NativeCall 1 (ne_params (demo_entry n)) [513 / 32768] \<in> set (snd (snd (demo_call n [])))"
proof -
  from demo_call_native [of n] obtain tr2 where
    tn: "transcribe_native demo_env (demo_entry n) ''a.wav'' ''turbo'' [] (Some 5) (Some 7)
            demo_mid = (fst (demo_call n []), fst (snd (demo_call n [])), tr2)"
    and tr: "snd (snd (demo_call n [])) =
             [ProgressEv 5 (TranscribingWithModel ''turbo''), ProgressEv 5 PreparingAudio,
              ProgressEv 5 StartingTranscription] @ tr2"
    by blast
  from transcribe_native_result [OF tn]
  have "NativeCall (ne_ctx (demo_entry n)) (ne_params (demo_entry n))
       (ne_samples (demo_entry n)) \<in> set tr2"
    by blast
  then show ?thesis
    by (simp add: tr demo_entry_def)
qed

lemma demo_call_eq:
  "TranscribeWithTranslation demo_env demo_engine ''a.wav'' ''turbo'' n t (Some 5) (Some 7)
     demo_state = (fst (demo_call n t), fst (snd (demo_call n t)), snd (snd (demo_call n t)))"
  by (simp add: demo_call_def)

lemma demo_reachable: "reachable demo_env demo_state"
proof -
  have "NewWhisperCGOEngine demo_env ''m.bin'' (init_state demo_files) = (Inr demo_engine, demo_state)"
    by (simp add: NewWhisperCGOEngine_def engine_lookup_def stat_not_exist_def engine_load_def engine_insert_def
        alloc_def init_state_def demo_env_def demo_engine_def demo_state_def demo_files_def
        numeral_2_eq_2)
  with reachable.initial [of demo_env demo_files] show ?thesis
    by (rule reachable.new_engine)
qed

section \<open>Mutual exclusion on a model\<close>

text \<open>
  The parts that the concurrent calls run are the parts of \<open>transcribe_setup\<close>: a call
  that runs them with no other call in between computes \<open>transcribe_setup\<close>, where
  waiting in \<^verbatim>\<open>Lock\<close> shows as \<open>Blocked\<close>.
\<close>

lemma transcribe_setup_parts:
  "before_lock e audioPath modelID translateTo progressCb segmentCb s = Some (res, tr) \<Longrightarrow>
     transcribe_setup ev e audioPath modelID cpuThreads translateTo progressCb segmentCb s
       = (Return res, s, tr)"
  "before_lock e audioPath modelID translateTo progressCb segmentCb s = None \<Longrightarrow>
   Lock (model e) s = None \<Longrightarrow>
     transcribe_setup ev e audioPath modelID cpuThreads translateTo progressCb segmentCb s
       = (Return (Inl Blocked), s, [])"
  "before_lock e audioPath modelID translateTo progressCb segmentCb s = None \<Longrightarrow>
   Lock (model e) s = Some s1 \<Longrightarrow>
     after_lock ev e audioPath modelID cpuThreads translateTo progressCb s1
       = Some (transcribe_setup ev e audioPath modelID cpuThreads translateTo progressCb
                 segmentCb s)"
  by (auto simp: before_lock_def Lock_def after_lock_def transcribe_setup_def
      models_set_mutex_same split: option.splits if_splits)

lemma Lock_Some:
  assumes "Lock p s = Some s1"
  shows "\<exists>m. models s p = Some m \<and> \<not> mutex m \<and> models s1 p = Some (m\<lparr>mutex := True\<rparr>)"
    and "q \<noteq> p \<Longrightarrow> models s1 q = models s q"
  using assms
  by (auto simp: Lock_def models_set_mutex_same models_set_mutex_other
      split: option.splits if_splits)

lemma Lock_None_iff:
  "Lock p s = None \<longleftrightarrow> (\<forall>m. models s p = Some m \<longrightarrow> mutex m)"
  by (auto simp: Lock_def split: option.splits)

lemma after_lock_Some:
  assumes "after_lock ev e audioPath modelID cpuThreads translateTo progressCb s
             = Some (st, s1, tr)"
  shows "case st of
           Enter ne \<Rightarrow> ne_model ne = model e \<and> models s1 = models s
         | Return r \<Rightarrow> models s1 = models (set_mutex (model e) False s)"
proof -
  from assms obtain c where
    r: "on_return (set_mutex (model e) False)
          (setup_locked ev (model e) c audioPath modelID cpuThreads translateTo
             progressCb s) = (st, s1, tr)"
    by (auto simp: after_lock_def split: option.splits)
  show ?thesis
  proof (cases st)
    case (Return res)
    with r obtain s0 where
      sl: "setup_locked ev (model e) c audioPath modelID cpuThreads translateTo
             progressCb s = (Return res, s0, tr)"
      and s1: "s1 = set_mutex (model e) False s0"
      by (auto simp: on_return_Return)
    from setup_locked_Return [OF sl] have "models s0 = models s"
      by simp
    then have "models (set_mutex (model e) False s0) = models (set_mutex (model e) False s)"
      by (simp add: models_set_mutex split: option.splits)
    with Return s1 show ?thesis
      by simp
  next
    case (Enter ne)
    with r have
      sl: "setup_locked ev (model e) c audioPath modelID cpuThreads translateTo
             progressCb s = (Enter ne, s1, tr)"
      by (simp add: on_return_Enter)
    from setup_locked_Enter [OF sl] have "ne_model ne = model e" "models s1 = models s"
      by simp_all
    with Enter show ?thesis
      by simp
  qed
qed

lemma transcribe_native_models:
  assumes "transcribe_native ev ne audioPath modelID translateTo progressCb segmentCb s
             = (res, s', tr)"
  shows "models s' = models (set_mutex (ne_model ne) False s)"
  using transcribe_native_result [OF assms] by (rule_tac conjunct1 [OF conjunct2 [OF conjunct2 [OF conjunct2 [OF conjunct2 [OF conjunct2]]]]])

text \<open>
  A call scheduled alone from the start runs to its return, and the result, the state and
  the effects are those of \<open>TranscribeWithTranslation\<close>.
\<close>

lemma solo_call:
  assumes twt: "TranscribeWithTranslation ev (c_engine (calls t)) (c_audioPath (calls t))
             (c_modelID (calls t)) (c_cpuThreads (calls t)) (c_translateTo (calls t))
             (c_progressCb (calls t)) (c_segmentCb (calls t)) s = (res, s', tr)"
    and nb: "res \<noteq> Inl Blocked"
  shows "\<exists>sched. set sched \<subseteq> {t}
           \<and> exec ev calls (start s) sched = Some (move (start s) t (Returned res) s' tr)"
proof (cases "before_lock (c_engine (calls t)) (c_audioPath (calls t)) (c_modelID (calls t))
                (c_translateTo (calls t)) (c_progressCb (calls t)) (c_segmentCb (calls t)) s")
  case (Some r)
  obtain r0 tr0 where r: "r = (r0, tr0)"
    by (cases r)
  from transcribe_setup_parts(1) [OF Some [unfolded r]] twt
  have "res = r0" "s' = s" "tr = tr0"
    by (simp_all add: TranscribeWithTranslation_def)
  with Some r have "exec ev calls (start s) [t]
      = Some (move (start s) t (Returned res) s' tr)"
    by (simp add: step_def start_def)
  then show ?thesis
    by (intro exI [of _ "[t]"]) simp
next
  case None
  let ?c1 = "move (start s) t AtLock s []"
  have 1: "step ev calls (start s) t = Some ?c1"
    using None by (simp add: step_def start_def)
  show ?thesis
  proof (cases "Lock (model (c_engine (calls t))) s")
    case N: None
    from transcribe_setup_parts(2) [OF None N] twt nb show ?thesis
      by (simp add: TranscribeWithTranslation_def)
  next
    case (Some s1)
    let ?c2 = "move ?c1 t Locked s1 []"
    have 2: "step ev calls ?c1 t = Some ?c2"
      using Some by (simp add: step_def move_def)
    obtain st s2 tr2 where
      ts: "transcribe_setup ev (c_engine (calls t)) (c_audioPath (calls t))
             (c_modelID (calls t)) (c_cpuThreads (calls t)) (c_translateTo (calls t))
             (c_progressCb (calls t)) (c_segmentCb (calls t)) s = (st, s2, tr2)"
      by (rule prod_cases3)
    from transcribe_setup_parts(3) [OF None Some, of ev "c_cpuThreads (calls t)"] ts
    have al: "after_lock ev (c_engine (calls t)) (c_audioPath (calls t)) (c_modelID (calls t))
             (c_cpuThreads (calls t)) (c_translateTo (calls t)) (c_progressCb (calls t)) s1
            = Some (st, s2, tr2)"
      by simp
    let ?c3 = "move ?c2 t (arrive st) s2 tr2"
    have 3: "step ev calls ?c2 t = Some ?c3"
      using al by (simp add: step_def move_def)
    show ?thesis
    proof (cases st)
      case (Return r)
      with ts twt have "res = r" "s' = s2" "tr = tr2"
        by (simp_all add: TranscribeWithTranslation_def)
      with Return have "?c3 = move (start s) t (Returned res) s' tr"
        by (simp add: move_def start_def)
      with 1 2 3 have "exec ev calls (start s) [t, t, t]
          = Some (move (start s) t (Returned res) s' tr)"
        by simp
      then show ?thesis
        by (intro exI [of _ "[t, t, t]"]) simp
    next
      case (Enter ne)
      with ts twt obtain tr3 where
        tn: "transcribe_native ev ne (c_audioPath (calls t)) (c_modelID (calls t))
               (c_translateTo (calls t)) (c_progressCb (calls t)) (c_segmentCb (calls t)) s2
              = (res, s', tr3)"
        and tr: "tr = tr2 @ tr3"
        by (auto simp: TranscribeWithTranslation_def split: prod.splits)
      let ?c4 = "move ?c3 t (Returned res) s' tr3"
      have 4: "step ev calls ?c3 t = Some ?c4"
        using tn Enter by (simp add: step_def move_def)
      have "?c4 = move (start s) t (Returned res) s' tr"
        using tr by (simp add: move_def start_def)
      with 1 2 3 4 have "exec ev calls (start s) [t, t, t, t]
          = Some (move (start s) t (Returned res) s' tr)"
        by simp
      then show ?thesis
        by (intro exI [of _ "[t, t, t, t]"]) simp
    qed
  qed
qed

text \<open>What a step does to the position of its call and to the mutexes.\<close>

lemma step_cases:
  assumes "step ev calls cf u = Some cf'"
  obtains (called) p tr where
      "pos cf u = Called" "\<not> holds_lock p" "cf' = move cf u p (shared cf) tr"
  | (lock) sa where
      "pos cf u = AtLock" "Lock (handle calls u) (shared cf) = Some sa"
      "cf' = move cf u Locked sa []"
  | (enter) ne sa tr where
      "pos cf u = Locked" "ne_model ne = handle calls u" "models sa = models (shared cf)"
      "cf' = move cf u (InNative ne) sa tr"
  | (fail) r sa tr where
      "pos cf u = Locked"
      "models sa = models (set_mutex (handle calls u) False (shared cf))"
      "cf' = move cf u (Returned r) sa tr"
  | (native) ne res sa tr where
      "pos cf u = InNative ne"
      "models sa = models (set_mutex (ne_model ne) False (shared cf))"
      "cf' = move cf u (Returned res) sa tr"
proof (cases "pos cf u")
  case Called
  show ?thesis
  proof (cases "before_lock (c_engine (calls u)) (c_audioPath (calls u)) (c_modelID (calls u))
                  (c_translateTo (calls u)) (c_progressCb (calls u)) (c_segmentCb (calls u))
                  (shared cf)")
    case None
    with assms Called show ?thesis
      by (intro called [where p = AtLock and tr = "[]"]) (simp_all add: step_def Let_def)
  next
    case (Some r)
    with assms Called show ?thesis
      by (cases r; intro called [where p = "Returned (fst r)" and tr = "snd r"])
        (simp_all add: step_def Let_def)
  qed
next
  case AtLock
  with assms obtain s1 where
    "Lock (handle calls u) (shared cf) = Some s1" "cf' = move cf u Locked s1 []"
    by (auto simp: step_def Let_def handle_def split: option.splits)
  with AtLock show ?thesis
    by (intro lock [where sa = s1])
next
  case Locked
  with assms obtain st s1 tr where
    al: "after_lock ev (c_engine (calls u)) (c_audioPath (calls u)) (c_modelID (calls u))
           (c_cpuThreads (calls u)) (c_translateTo (calls u)) (c_progressCb (calls u))
           (shared cf) = Some (st, s1, tr)"
    and cf': "cf' = move cf u (arrive st) s1 tr"
    by (auto simp: step_def Let_def split: option.splits)
  show ?thesis
  proof (cases st)
    case (Return r)
    with after_lock_Some [OF al] Locked cf' show ?thesis
      by (intro fail [where r = r and sa = s1 and tr = tr]) (simp_all add: handle_def)
  next
    case (Enter ne)
    with after_lock_Some [OF al] Locked cf' show ?thesis
      by (intro enter [where ne = ne and sa = s1 and tr = tr]) (simp_all add: handle_def)
  qed
next
  case (InNative ne)
  with assms obtain res s1 tr where
    tn: "transcribe_native ev ne (c_audioPath (calls u)) (c_modelID (calls u))
           (c_translateTo (calls u)) (c_progressCb (calls u)) (c_segmentCb (calls u))
           (shared cf) = (res, s1, tr)"
    and cf': "cf' = move cf u (Returned res) s1 tr"
    by (auto simp: step_def Let_def split: prod.splits)
  from transcribe_native_models [OF tn] InNative cf' show ?thesis
    by (intro native [where ne = ne and sa = s1 and res = res and tr = tr]) simp_all
next
  case (Returned res)
  with assms show ?thesis
    by (simp add: step_def Let_def)
qed

lemma step_AtLock:
  "pos cf u = AtLock \<Longrightarrow>
   step ev calls cf u =
     (case Lock (handle calls u) (shared cf) of
        None \<Rightarrow> None
      | Some s' \<Rightarrow> Some (move cf u Locked s' []))"
  by (simp add: step_def handle_def)

lemma in_native_holds_lock: "in_native p \<Longrightarrow> holds_lock p"
  by (cases p) simp_all

lemma in_native_iff: "in_native p \<longleftrightarrow> (\<exists>ne. p = InNative ne)"
  by (cases p) simp_all

lemma leave_inv:
  assumes inv: "lock_inv calls cf" and p: "\<not> holds_lock p"
    and held: "holds_lock (pos cf u) \<Longrightarrow>
                 models s1 = models (set_mutex (handle calls u) False (shared cf))"
    and free: "\<not> holds_lock (pos cf u) \<Longrightarrow> models s1 = models (shared cf)"
  shows "lock_inv calls (move cf u p s1 tr)"
  unfolding lock_inv_def
proof (intro allI impI)
  fix t
  assume h: "holds_lock (pos (move cf u p s1 tr) t)"
  with p have tu: "t \<noteq> u" and ht: "holds_lock (pos cf t)"
    by (auto simp: move_def split: if_splits)
  from inv ht have
    m: "\<exists>m. models (shared cf) (handle calls t) = Some m \<and> mutex m"
    and n: "\<forall>ne. pos cf t = InNative ne \<longrightarrow> ne_model ne = handle calls t"
    and x: "\<forall>v. v \<noteq> t \<and> handle calls v = handle calls t \<longrightarrow> \<not> holds_lock (pos cf v)"
    unfolding lock_inv_def by blast+
  have same: "models s1 (handle calls t) = models (shared cf) (handle calls t)"
  proof (cases "holds_lock (pos cf u)")
    case True
    with x tu have "handle calls t \<noteq> handle calls u"
      by metis
    with held [OF True] show ?thesis
      by (simp add: models_set_mutex_other)
  next
    case False
    from free [OF False] show ?thesis
      by simp
  qed
  have 1: "\<exists>m. models (shared (move cf u p s1 tr)) (handle calls t) = Some m \<and> mutex m"
    using m same by (simp add: move_def)
  have 2: "\<forall>ne. pos (move cf u p s1 tr) t = InNative ne \<longrightarrow> ne_model ne = handle calls t"
    using n tu by (simp add: move_def)
  have 3: "\<forall>v. v \<noteq> t \<and> handle calls v = handle calls t
             \<longrightarrow> \<not> holds_lock (pos (move cf u p s1 tr) v)"
    using x p by (simp add: move_def)
  from 1 2 3 show
    "(\<exists>m. models (shared (move cf u p s1 tr)) (handle calls t) = Some m \<and> mutex m)
     \<and> (\<forall>ne. pos (move cf u p s1 tr) t = InNative ne \<longrightarrow> ne_model ne = handle calls t)
     \<and> (\<forall>v. v \<noteq> t \<and> handle calls v = handle calls t
            \<longrightarrow> \<not> holds_lock (pos (move cf u p s1 tr) v))"
    by (intro conjI)
qed

lemma enter_inv:
  assumes inv: "lock_inv calls cf" and p: "holds_lock p"
    and ne: "\<forall>ne. p = InNative ne \<longrightarrow> ne_model ne = handle calls u"
    and now: "\<exists>m. models s1 (handle calls u) = Some m \<and> mutex m"
    and other: "\<forall>q. q \<noteq> handle calls u \<longrightarrow> models s1 q = models (shared cf) q"
    and before: "holds_lock (pos cf u)
                 \<or> \<not> (\<exists>m. models (shared cf) (handle calls u) = Some m \<and> mutex m)"
  shows "lock_inv calls (move cf u p s1 tr)"
  unfolding lock_inv_def
proof (intro allI impI)
  fix t
  assume h: "holds_lock (pos (move cf u p s1 tr) t)"
  have alone: "\<not> holds_lock (pos cf v)" if "v \<noteq> u" "handle calls v = handle calls u" for v
  proof
    assume hv: "holds_lock (pos cf v)"
    with inv have
      m: "\<exists>m. models (shared cf) (handle calls v) = Some m \<and> mutex m"
      and x: "\<forall>w. w \<noteq> v \<and> handle calls w = handle calls v \<longrightarrow> \<not> holds_lock (pos cf w)"
      unfolding lock_inv_def by blast+
    from before show False
    proof
      assume "holds_lock (pos cf u)"
      with x that show False
        by metis
    next
      assume "\<not> (\<exists>m. models (shared cf) (handle calls u) = Some m \<and> mutex m)"
      with m that show False
        by simp
    qed
  qed
  show "(\<exists>m. models (shared (move cf u p s1 tr)) (handle calls t) = Some m \<and> mutex m)
     \<and> (\<forall>ne. pos (move cf u p s1 tr) t = InNative ne \<longrightarrow> ne_model ne = handle calls t)
     \<and> (\<forall>v. v \<noteq> t \<and> handle calls v = handle calls t
            \<longrightarrow> \<not> holds_lock (pos (move cf u p s1 tr) v))"
  proof (cases "t = u")
    case True
    have 1: "\<exists>m. models (shared (move cf u p s1 tr)) (handle calls t) = Some m \<and> mutex m"
      using now True by (simp add: move_def)
    have 2: "\<forall>ne. pos (move cf u p s1 tr) t = InNative ne \<longrightarrow> ne_model ne = handle calls t"
      using ne True by (simp add: move_def)
    have 3: "\<forall>v. v \<noteq> t \<and> handle calls v = handle calls t
               \<longrightarrow> \<not> holds_lock (pos (move cf u p s1 tr) v)"
      using alone True by (simp add: move_def)
    from 1 2 3 show ?thesis
      by (intro conjI)
  next
    case False
    with h have ht: "holds_lock (pos cf t)"
      by (simp add: move_def)
    with inv have
      m: "\<exists>m. models (shared cf) (handle calls t) = Some m \<and> mutex m"
      and n: "\<forall>ne. pos cf t = InNative ne \<longrightarrow> ne_model ne = handle calls t"
      and x: "\<forall>v. v \<noteq> t \<and> handle calls v = handle calls t \<longrightarrow> \<not> holds_lock (pos cf v)"
      unfolding lock_inv_def by blast+
    from alone [of t] False ht have diff: "handle calls t \<noteq> handle calls u"
      by blast
    have 1: "\<exists>m. models (shared (move cf u p s1 tr)) (handle calls t) = Some m \<and> mutex m"
      using m other diff by (simp add: move_def)
    have 2: "\<forall>ne. pos (move cf u p s1 tr) t = InNative ne \<longrightarrow> ne_model ne = handle calls t"
      using n False by (simp add: move_def)
    have 3: "\<forall>v. v \<noteq> t \<and> handle calls v = handle calls t
               \<longrightarrow> \<not> holds_lock (pos (move cf u p s1 tr) v)"
      using x diff by (simp add: move_def)
    from 1 2 3 show ?thesis
      by (intro conjI)
  qed
qed

lemma step_inv:
  assumes "lock_inv calls cf" and "step ev calls cf u = Some cf'"
  shows "lock_inv calls cf'"
  using assms(2)
proof (cases rule: step_cases)
  case (called p tr)
  with leave_inv [OF assms(1), of p u "shared cf" tr] show ?thesis
    by simp
next
  case (lock s1)
  from Lock_Some [OF lock(2)] have
    "\<exists>m. models s1 (handle calls u) = Some m \<and> mutex m"
    "\<forall>q. q \<noteq> handle calls u \<longrightarrow> models s1 q = models (shared cf) q"
    "\<not> (\<exists>m. models (shared cf) (handle calls u) = Some m \<and> mutex m)"
    by auto
  with enter_inv [OF assms(1), of Locked u s1 "[]"] lock(3) show ?thesis
    by simp
next
  case (enter ne s1 tr)
  from assms(1) enter(1) have "\<exists>m. models (shared cf) (handle calls u) = Some m \<and> mutex m"
    unfolding lock_inv_def by (metis holds_lock.simps(1))
  with enter(3) have "\<exists>m. models s1 (handle calls u) = Some m \<and> mutex m"
    by simp
  with enter_inv [OF assms(1), of "InNative ne" u s1 tr] enter show ?thesis
    by simp
next
  case (fail r s1 tr)
  with leave_inv [OF assms(1), of "Returned r" u s1 tr] show ?thesis
    by simp
next
  case (native ne res s1 tr)
  from assms(1) native(1) have "ne_model ne = handle calls u"
    unfolding lock_inv_def by (metis holds_lock.simps(2))
  with leave_inv [OF assms(1), of "Returned res" u s1 tr] native show ?thesis
    by simp
qed

lemma start_inv: "lock_inv calls (start s)"
  by (simp add: lock_inv_def start_def)

lemma exec_inv:
  "lock_inv calls cf \<Longrightarrow> exec ev calls cf sched = Some cf' \<Longrightarrow> lock_inv calls cf'"
proof (induction sched arbitrary: cf)
  case Nil
  then show ?case by simp
next
  case (Cons t sched)
  from Cons.prems(2) obtain cf1 where
    s: "step ev calls cf t = Some cf1" and e: "exec ev calls cf1 sched = Some cf'"
    by (auto split: option.splits)
  from Cons.IH [OF step_inv [OF Cons.prems(1) s] e] show ?case .
qed

text \<open>
  C2. Concurrent calls of \<open>TranscribeWithTranslation\<close> start in any state and run
  their parts in any order. Two calls that resolved to the same model are never both
  inside the native call. A call that is past \<^verbatim>\<open>Lock\<close> and has not returned (so for
  the whole of its native call) holds the mutex of that model in the shared state, no
  other call on that model is past \<^verbatim>\<open>Lock\<close>, and another call on that model that
  has arrived at \<^verbatim>\<open>Lock\<close> cannot go on. When the call inside the native call takes
  its step, it has returned, and the call waiting in \<^verbatim>\<open>Lock\<close> can then take the
  mutex.
\<close>

theorem native_calls_exclusive:
  assumes ex: "exec ev calls (start s0) sched = Some cf"
    and tu: "t \<noteq> u" and same: "handle calls t = handle calls u"
  shows "\<not> (in_native (pos cf t) \<and> in_native (pos cf u))
       \<and> (holds_lock (pos cf t) \<longrightarrow>
            (\<exists>m. models (shared cf) (handle calls t) = Some m \<and> mutex m)
            \<and> \<not> holds_lock (pos cf u)
            \<and> (pos cf u = AtLock \<longrightarrow> step ev calls cf u = None))
       \<and> (\<forall>cf'. in_native (pos cf t) \<and> pos cf u = AtLock \<and> step ev calls cf t = Some cf' \<longrightarrow>
             (\<exists>res. pos cf' t = Returned res)
             \<and> (\<exists>cf''. step ev calls cf' u = Some cf'' \<and> pos cf'' u = Locked))"
proof -
  have inv: "lock_inv calls cf"
    by (rule exec_inv [OF start_inv ex])
  have held: "\<exists>m. models (shared cf) (handle calls t) = Some m \<and> mutex m"
    and native: "\<forall>ne. pos cf t = InNative ne \<longrightarrow> ne_model ne = handle calls t"
    and alone: "\<not> holds_lock (pos cf u)"
    if "holds_lock (pos cf t)"
    using inv that tu same unfolding lock_inv_def by metis+
  have 1: "\<not> (in_native (pos cf t) \<and> in_native (pos cf u))"
    using alone in_native_holds_lock by blast
  have 2: "step ev calls cf u = None" if "holds_lock (pos cf t)" "pos cf u = AtLock"
  proof -
    from held [OF that(1)] same have "Lock (handle calls u) (shared cf) = None"
      by (auto simp: Lock_None_iff)
    with that(2) show ?thesis
      by (simp add: step_AtLock)
  qed
  have 3: "(\<exists>res. pos cf' t = Returned res)
           \<and> (\<exists>cf''. step ev calls cf' u = Some cf'' \<and> pos cf'' u = Locked)"
    if n: "in_native (pos cf t)" and w: "pos cf u = AtLock"
      and st: "step ev calls cf t = Some cf'" for cf'
  proof -
    from n obtain ne where ne: "pos cf t = InNative ne"
      by (auto simp: in_native_iff)
    from n have h: "holds_lock (pos cf t)"
      by (rule in_native_holds_lock)
    from held [OF h] obtain m where m: "models (shared cf) (handle calls t) = Some m"
      by blast
    from native [OF h] ne have nm: "ne_model ne = handle calls t"
      by simp
    from st ne obtain res s1 tr where
      s1: "models s1 = models (set_mutex (ne_model ne) False (shared cf))"
      and cf': "cf' = move cf t (Returned res) s1 tr"
      by (cases rule: step_cases) simp_all
    from s1 nm m same have free: "models s1 (handle calls u) = Some (m\<lparr>mutex := False\<rparr>)"
      by (simp add: models_set_mutex_same)
    then have lk: "Lock (handle calls u) s1 = Some (set_mutex (handle calls u) True s1)"
      by (simp add: Lock_def)
    from cf' w tu have pu: "pos cf' u = AtLock" and sh: "shared cf' = s1"
      by (simp_all add: move_def)
    have a: "\<exists>res. pos cf' t = Returned res"
      using cf' by (simp add: move_def)
    have b: "\<exists>cf''. step ev calls cf' u = Some cf'' \<and> pos cf'' u = Locked"
      using lk sh by (simp add: step_AtLock [OF pu] move_def)
    from a b show ?thesis ..
  qed
  from 1 held alone 2 3 show ?thesis
    by blast
qed

lemma demo_exec:
  "exec demo_env demo_calls (start demo_state) [0, 1, 0, 0] = Some demo_race"
proof -
  have m: "model demo_engine = 2"
    by (simp add: demo_engine_def)
  have b: "before_lock demo_engine ''a.wav'' ''turbo'' [] (Some 5) (Some 7) demo_state = None"
    by (simp add: before_lock_def demo_state_def demo_engine_def)
  have l: "Lock (model demo_engine) demo_state = Some (set_mutex 2 True demo_state)"
    by (simp add: Lock_def demo_state_def m)
  have a: "after_lock demo_env demo_engine ''a.wav'' ''turbo'' 4 [] (Some 5)
             (set_mutex 2 True demo_state)
           = Some (Enter (demo_entry 4), demo_mid,
               [ProgressEv 5 (TranscribingWithModel ''turbo''), ProgressEv 5 PreparingAudio,
                ProgressEv 5 StartingTranscription])"
    using transcribe_setup_parts(3) [OF b l, of demo_env 4] by (simp add: demo_setup)
  show ?thesis
    by (simp add: start_def step_def move_def demo_calls_def b l a demo_race_def fun_eq_iff)
qed

lemma demo_leave:
  "\<exists>cf'. step demo_env demo_calls demo_race 0 = Some cf'
         \<and> pos cf' 0 = Returned (Inr demo_segments)"
proof -
  from demo_call_native [of 4] obtain tr2 where
    tn: "transcribe_native demo_env (demo_entry 4) ''a.wav'' ''turbo'' [] (Some 5) (Some 7)
            demo_mid = (fst (demo_call 4 []), fst (snd (demo_call 4 [])), tr2)"
    by blast
  have "pos demo_race 0 = InNative (demo_entry 4)" "shared demo_race = demo_mid"
    by (simp_all add: demo_race_def)
  then have "step demo_env demo_calls demo_race 0
      = Some (move demo_race 0 (Returned (fst (demo_call 4 []))) (fst (snd (demo_call 4 []))) tr2)"
    by (simp add: step_def demo_calls_def tn)
  then show ?thesis
    by (simp add: move_def demo_call_ok(1))
qed

theorem native_calls_exclusive_witness:
  "exec demo_env demo_calls (start demo_state) [0, 1, 0, 0] = Some demo_race
   \<and> handle demo_calls 0 = handle demo_calls 1
   \<and> pos demo_race 0 = InNative (demo_entry 4) \<and> pos demo_race 1 = AtLock
   \<and> (\<exists>m. models (shared demo_race) (handle demo_calls 0) = Some m \<and> mutex m)
   \<and> step demo_env demo_calls demo_race 1 = None
   \<and> (\<exists>cf'. step demo_env demo_calls demo_race 0 = Some cf'
          \<and> pos cf' 0 = Returned (Inr demo_segments)
          \<and> (\<exists>cf''. step demo_env demo_calls cf' 1 = Some cf'' \<and> pos cf'' 1 = Locked))"
proof -
  have h: "handle demo_calls 0 = handle demo_calls 1"
    by (simp add: handle_def demo_calls_def)
  have p: "pos demo_race 0 = InNative (demo_entry 4)" "pos demo_race 1 = AtLock"
    by (simp_all add: demo_race_def)
  from demo_leave obtain cf' where
    l: "step demo_env demo_calls demo_race 0 = Some cf'"
      "pos cf' 0 = Returned (Inr demo_segments)"
    by blast
  note t = native_calls_exclusive [OF demo_exec zero_neq_one h]
  from t p have held: "\<exists>m. models (shared demo_race) (handle demo_calls 0) = Some m \<and> mutex m"
    and waits: "step demo_env demo_calls demo_race 1 = None"
    by simp_all
  from t p l(1) have "\<exists>cf''. step demo_env demo_calls cf' 1 = Some cf'' \<and> pos cf'' 1 = Locked"
    by simp
  with l have "\<exists>cf'. step demo_env demo_calls demo_race 0 = Some cf'
          \<and> pos cf' 0 = Returned (Inr demo_segments)
          \<and> (\<exists>cf''. step demo_env demo_calls cf' 1 = Some cf'' \<and> pos cf'' 1 = Locked)"
    by blast
  with demo_exec h p held waits show ?thesis
    by (intro conjI)
qed

section \<open>The callback registry\<close>




text \<open>
  C5. After a call has returned, whatever the outcome, the registry has no slot for the
  token issued to the call: either the call issued none (the counter is where it was)
  and the registry is as before, or it issued the counter's value and the registry is
  as before without that token. The counter starts at 1 and \<open>0\<close> is the source's mark
  for "nothing registered", so the counter is taken to be nonzero.
\<close>

theorem registry_cleanup:
  assumes "TranscribeWithTranslation ev e audioPath modelID cpuThreads translateTo progressCb
             segmentCb s = (res, s', tr)"
    and "callbackIDCounter s \<noteq> 0"
  shows "callbackRegistry s' = callbackRegistry s \<and> callbackIDCounter s' = callbackIDCounter s
       \<or> callbackRegistry s' = (callbackRegistry s)(callbackIDCounter s := None)
         \<and> callbackIDCounter s' = callbackIDCounter s + 1"
  using assms(1)
proof (cases rule: TranscribeWithTranslation_cases)
  case early
  from transcribe_setup_Return [OF early] assms(2) show ?thesis
    by (simp add: registry_restored_def)
next
  case (native ne s1 tr1 tr2)
  note su = transcribe_setup_Enter [OF native(1)]
  note tn = transcribe_native_result [OF native(2)]
  from tn have reg: "callbackRegistry s' =
         (if ne_callbackID ne \<noteq> 0 then (callbackRegistry s1)(ne_callbackID ne := None)
          else callbackRegistry s1)"
    and cnt: "callbackIDCounter s' = callbackIDCounter s1"
    by simp_all
  show ?thesis
  proof (cases progressCb)
    case None
    with su have "callbackRegistry s1 = callbackRegistry s"
      "callbackIDCounter s1 = callbackIDCounter s" "ne_callbackID ne = 0"
      by auto
    with reg cnt show ?thesis by simp
  next
    case (Some f)
    with su obtain slot where "callbackRegistry s1 = (callbackRegistry s)(callbackIDCounter s \<mapsto> slot)"
      "callbackIDCounter s1 = callbackIDCounter s + 1" "ne_callbackID ne = callbackIDCounter s"
      by auto
    with reg cnt assms(2) show ?thesis by simp
  qed
qed

theorem registry_cleanup_witness:
  "callbackIDCounter demo_state \<noteq> 0
   \<and> callbackIDCounter (fst (snd (demo_call 4 []))) = 2
   \<and> callbackRegistry (fst (snd (demo_call 4 []))) 1 = None"
proof -
  have c: "callbackIDCounter demo_state = 1" by (simp add: demo_state_def)
  then have nz: "callbackIDCounter demo_state \<noteq> 0" by simp
  from registry_cleanup [OF demo_call_eq [of 4 "[]"] nz] demo_call_ok(2) c
  show ?thesis by auto
qed

section \<open>Failure of the native call\<close>

text \<open>
  C8. If the native call of a \<^verbatim>\<open>TranscribeWithTranslation\<close> returns a nonzero
  status, the call returns the inference failure with that status and the transcription
  cache is as before.
\<close>

theorem inference_failure_terminal:
  assumes "TranscribeWithTranslation ev e audioPath modelID cpuThreads translateTo progressCb
             segmentCb s = (res, s', tr)"
    and "NativeCall c params samples \<in> set tr"
    and "status (whisper_full ev c params samples) \<noteq> 0"
  shows "res = Inl (InferenceFailure (status (whisper_full ev c params samples)))
       \<and> transcriptionCache s' = transcriptionCache s"
  using assms(1)
proof (cases rule: TranscribeWithTranslation_cases)
  case early
  from transcribe_setup_Return [OF early] assms(2) have False
    by (metis event.disc(9))
  then show ?thesis ..
next
  case (native ne s1 tr1 tr2)
  note su = transcribe_setup_Enter [OF native(1)]
  note tn = transcribe_native_result [OF native(2)]
  from su have "\<forall>x\<in>set tr1. \<not> is_NativeCall x" by blast
  with assms(2) native(3) have "NativeCall c params samples \<in> set tr2"
    by auto
  with tn have eq: "NativeCall c params samples
                  = NativeCall (ne_ctx ne) (ne_params ne) (ne_samples ne)"
    by (metis event.disc(9))
  then have "status (whisper_full ev (ne_ctx ne) (ne_params ne) (ne_samples ne)) \<noteq> 0"
    using assms(3) by simp
  with tn have "res = Inl (InferenceFailure (status (whisper_full ev (ne_ctx ne) (ne_params ne) (ne_samples ne))))"
    and "transcriptionCache s' = transcriptionCache s1"
    by simp_all
  moreover from su have "transcriptionCache s1 = transcriptionCache s" by blast
  ultimately show ?thesis using eq by simp
qed

theorem inference_failure_terminal_witness:
  "NativeCall 1 (ne_params (demo_entry 0)) [513 / 32768] \<in> set (snd (snd (demo_call 0 [])))
   \<and> status (whisper_full demo_env 1 (ne_params (demo_entry 0)) [513 / 32768]) = 3
   \<and> fst (demo_call 0 []) = Inl (InferenceFailure 3)
   \<and> transcriptionCache (fst (snd (demo_call 0 []))) = transcriptionCache demo_state"
proof -
  have st: "status (whisper_full demo_env 1 (ne_params (demo_entry 0)) [513 / 32768]) = 3"
    by (simp add: demo_env_def demo_entry_def)
  then have nz: "status (whisper_full demo_env 1 (ne_params (demo_entry 0)) [513 / 32768]) \<noteq> 0"
    by simp
  from inference_failure_terminal [OF demo_call_eq [of 0 "[]"] demo_call_trace [of 0] nz]
    demo_call_trace [of 0] st
  show ?thesis by simp
qed

section \<open>The transcription cache\<close>

lemma cached_trace_segments:
  "filter is_SegmentEv (say progressCb UsingCached @ emit segmentCb L
       @ say progressCb (LoadedCached (length L))) = emit segmentCb L"
  by (cases progressCb; cases segmentCb) (simp_all add: say_def emit_def filter_map comp_def)

lemma success_caches:
  assumes "TranscribeWithTranslation ev e audioPath modelID cpuThreads [] progressCb
             segmentCb s = (Inr L, s', tr)"
  shows "engine_ok e s' \<and> transcriptionCache s' (audioPath, modelID) = Some L"
  using assms
proof (cases rule: TranscribeWithTranslation_cases)
  case early
  from transcribe_setup_Return [OF early] show ?thesis by simp
next
  case (native ne s1 tr1 tr2)
  from transcribe_setup_Enter [OF native(1)] obtain m where
    me: "model e \<noteq> 0" and cm: "ctx m \<noteq> 0"
    and ms1: "models s1 = (models s)(model e \<mapsto> m\<lparr>mutex := True\<rparr>)"
    by blast
  from transcribe_setup_Enter [OF native(1)] have nm: "ne_model ne = model e"
    by simp
  note tn = transcribe_native_result [OF native(2)]
  let ?run = "whisper_full ev (ne_ctx ne) (ne_params ne) (ne_samples ne)"
  from tn have st: "status ?run = 0"
    by (cases "status ?run = 0") simp_all
  with tn have "Inr L = (Inr (extract_segments ev (produced ?run) 0 0) :: error + Segment list)"
    and c: "transcriptionCache s' =
        (transcriptionCache s1)((audioPath, modelID) \<mapsto> extract_segments ev (produced ?run) 0 0)"
    by simp_all
  then have cache: "transcriptionCache s' (audioPath, modelID) = Some L" by simp
  from tn have "models s' = models (set_mutex (ne_model ne) False s1)" by simp
  with ms1 nm have "models s' (model e) = Some (m\<lparr>mutex := False\<rparr>)"
    by (simp add: models_set_mutex)
  with me cm have "engine_ok e s'" by (simp add: engine_ok_def)
  with cache show ?thesis by simp
qed

text \<open>
  C1. If a call without translation target returns the list \<open>L\<close>, a second call with
  the same engine, path and model id, whatever its thread count and sinks, returns
  \<open>L\<close> again, leaves the state as it is, hands the segments of \<open>L\<close> in order to
  its segment sink and makes no native call.
\<close>

theorem cached_transcription_idempotent:
  assumes "TranscribeWithTranslation ev e audioPath modelID cpuThreads [] progressCb
             segmentCb s = (Inr L, s', tr)"
  shows "\<exists>tr'. TranscribeWithTranslation ev e audioPath modelID cpuThreads' [] progressCb'
                  segmentCb' s' = (Inr L, s', tr')
              \<and> filter is_SegmentEv tr'
                  = (case segmentCb' of None \<Rightarrow> [] | Some f \<Rightarrow> map (SegmentEv f) L)
              \<and> (\<forall>x\<in>set tr'. \<not> is_NativeCall x)"
proof -
  from success_caches [OF assms] have ok: "engine_ok e s'"
    and c: "transcriptionCache s' (audioPath, modelID) = Some L"
    by simp_all
  let ?tr = "say progressCb' UsingCached @ emit segmentCb' L
               @ say progressCb' (LoadedCached (length L))"
  from transcribe_setup_cached [OF ok c]
  have "TranscribeWithTranslation ev e audioPath modelID cpuThreads' [] progressCb'
                  segmentCb' s' = (Inr L, s', ?tr)"
    by (simp add: TranscribeWithTranslation_def)
  moreover have "filter is_SegmentEv ?tr
      = (case segmentCb' of None \<Rightarrow> [] | Some f \<Rightarrow> map (SegmentEv f) L)"
    using cached_trace_segments [of progressCb' segmentCb' L] by (simp add: emit_def)
  moreover have "\<forall>x\<in>set ?tr. \<not> is_NativeCall x"
    using say_no_native emit_no_native by (metis Un_iff set_append)
  ultimately show ?thesis by blast
qed

theorem cached_transcription_idempotent_witness:
  "fst (demo_call 4 []) = Inr demo_segments
   \<and> (\<exists>tr'. TranscribeWithTranslation demo_env demo_engine ''a.wav'' ''turbo'' 1 [] None (Some 9)
               (fst (snd (demo_call 4 [])))
             = (Inr demo_segments, fst (snd (demo_call 4 [])), tr')
           \<and> filter is_SegmentEv tr' = map (SegmentEv 9) demo_segments
           \<and> (\<forall>x\<in>set tr'. \<not> is_NativeCall x))"
proof -
  have h: "TranscribeWithTranslation demo_env demo_engine ''a.wav'' ''turbo'' 4 [] (Some 5)
      (Some 7) demo_state = (Inr demo_segments, fst (snd (demo_call 4 [])), snd (snd (demo_call 4 [])))"
    using demo_call_eq [of 4 "[]"] by (simp add: demo_call_ok(1))
  from cached_transcription_idempotent [OF h, of 1 None "Some 9"] demo_call_ok(1)
  show ?thesis by simp
qed

lemma prepareAudioFile_cache:
  "prepareAudioFile ev audioPath progressCb (s\<lparr>transcriptionCache := c\<rparr>)
     = (case prepareAudioFile ev audioPath progressCb s of
          (r, s1, tr) \<Rightarrow> (r, s1\<lparr>transcriptionCache := c\<rparr>, tr))"
  by (simp add: prepareAudioFile_def Let_def split: option.splits)

lemma setup_with_audio_cache:
  "setup_with_audio mdl cx tempWav cpuThreads translateTo progressCb audioData
       (s\<lparr>transcriptionCache := c\<rparr>)
     = (case setup_with_audio mdl cx tempWav cpuThreads translateTo progressCb audioData s of
          (st, s1, tr) \<Rightarrow> (st, s1\<lparr>transcriptionCache := c\<rparr>, tr))"
  by (cases progressCb) (simp_all add: swa_defs)

lemma setup_locked_cache:
  "setup_locked ev mdl cx audioPath modelID cpuThreads translateTo progressCb
       (s\<lparr>transcriptionCache := c\<rparr>)
     = (case setup_locked ev mdl cx audioPath modelID cpuThreads translateTo progressCb s of
          (st, s1, tr) \<Rightarrow> (st, s1\<lparr>transcriptionCache := c\<rparr>, tr))"
proof -
  obtain pr s1 tr2 where prep: "prepareAudioFile ev audioPath progressCb s = (pr, s1, tr2)"
    by (cases "prepareAudioFile ev audioPath progressCb s" rule: prod_cases3)
  show ?thesis
  proof (cases pr)
    case (Inl err)
    with prep show ?thesis
      by (simp add: setup_locked_def prepareAudioFile_cache Let_def)
  next
    case (Inr tempWav)
    have rm: "os_Remove tempWav (x\<lparr>transcriptionCache := c\<rparr>)
            = (os_Remove tempWav x)\<lparr>transcriptionCache := c\<rparr>" for x
      by (simp add: os_Remove_def)
    show ?thesis
    proof (cases "readWAVFile (files s1) tempWav")
      case (Inl err)
      with prep Inr show ?thesis
        by (simp add: setup_locked_def prepareAudioFile_cache Let_def on_return_def rm)
    next
      case rd: (Inr ad)
      obtain audioData sampleRate where ad: "ad = (audioData, sampleRate)" by (cases ad)
      obtain st s2 tr3 where swa: "setup_with_audio mdl cx tempWav cpuThreads translateTo
          progressCb audioData s1 = (st, s2, tr3)"
        by (cases "setup_with_audio mdl cx tempWav cpuThreads translateTo
          progressCb audioData s1" rule: prod_cases3)
      from prep Inr rd ad swa show ?thesis
        by (cases st)
          (simp_all add: setup_locked_def prepareAudioFile_cache setup_with_audio_cache
            Let_def on_return_def rm)
    qed
  qed
qed

lemma set_mutex_cache:
  "set_mutex p b (s\<lparr>transcriptionCache := c\<rparr>) = (set_mutex p b s)\<lparr>transcriptionCache := c\<rparr>"
  by (simp add: set_mutex_def split: option.splits)

lemma transcribe_setup_cache:
  assumes "translateTo \<noteq> []"
  shows "transcribe_setup ev e audioPath modelID cpuThreads translateTo progressCb segmentCb
       (s\<lparr>transcriptionCache := c\<rparr>)
     = (case transcribe_setup ev e audioPath modelID cpuThreads translateTo progressCb
               segmentCb s of
          (st, s1, tr) \<Rightarrow> (st, s1\<lparr>transcriptionCache := c\<rparr>, tr))"
proof (cases "if model e = 0 then None else models s (model e)")
  case None
  with assms show ?thesis
    by (auto simp: transcribe_setup_def split: if_splits)
next
  case (Some m)
  obtain st s1 tr where sl: "setup_locked ev (model e) (ctx m) audioPath modelID cpuThreads
        translateTo progressCb (set_mutex (model e) True s) = (st, s1, tr)"
    by (cases "setup_locked ev (model e) (ctx m) audioPath modelID cpuThreads
        translateTo progressCb (set_mutex (model e) True s)" rule: prod_cases3)
  from Some have me: "model e \<noteq> 0" and mm: "models s (model e) = Some m"
    by (simp_all split: if_splits)
  from me mm assms sl show ?thesis
    by (cases st)
      (simp_all add: transcribe_setup_def set_mutex_cache setup_locked_cache on_return_def)
qed

lemma whisper_progress_callback_go_cache:
  "whisper_progress_callback_go k p (s\<lparr>transcriptionCache := c\<rparr>)
     = (whisper_progress_callback_go k p s)\<lparr>transcriptionCache := c\<rparr>"
  by (simp add: whisper_progress_callback_go_def split: option.splits)

lemma run_timeline_cache:
  "run_timeline params cell evs (s\<lparr>transcriptionCache := c\<rparr>)
     = (case run_timeline params cell evs s of (s1, vs) \<Rightarrow> (s1\<lparr>transcriptionCache := c\<rparr>, vs))"
proof (induction evs arbitrary: s)
  case Nil
  show ?case by simp
next
  case (Cons ev evs)
  show ?case
  proof (cases ev)
    case (Report p)
    with Cons.IH show ?thesis
      by (simp add: whisper_progress_callback_go_cache)
  next
    case Tick
    with Cons.IH show ?thesis
      by (simp add: load_cell_def split: prod.splits)
  qed
qed

lemma cleanup_callbacks_cache:
  "cleanup_callbacks k (s\<lparr>transcriptionCache := c\<rparr>)
     = (cleanup_callbacks k s)\<lparr>transcriptionCache := c\<rparr>"
  by (simp add: cleanup_callbacks_def)

lemma os_Remove_cache:
  "os_Remove p (s\<lparr>transcriptionCache := c\<rparr>) = (os_Remove p s)\<lparr>transcriptionCache := c\<rparr>"
  by (simp add: os_Remove_def)

lemma run_deferred_cache:
  "run_deferred ne (s\<lparr>transcriptionCache := c\<rparr>) = (run_deferred ne s)\<lparr>transcriptionCache := c\<rparr>"
  by (simp only: run_deferred_def cleanup_callbacks_cache os_Remove_cache set_mutex_cache)

lemma transcribe_native_cache:
  assumes "translateTo \<noteq> []"
  shows "transcribe_native ev ne audioPath modelID translateTo progressCb segmentCb
       (s\<lparr>transcriptionCache := c\<rparr>)
     = (case transcribe_native ev ne audioPath modelID translateTo progressCb segmentCb s of
          (r, s1, tr) \<Rightarrow> (r, s1\<lparr>transcriptionCache := c\<rparr>, tr))"
proof -
  let ?run = "whisper_full ev (ne_ctx ne) (ne_params ne) (ne_samples ne)"
  obtain sa ticks where rt: "run_timeline (ne_params ne) (ne_cell ne) (timeline ?run) s = (sa, ticks)"
    by (cases "run_timeline (ne_params ne) (ne_cell ne) (timeline ?run) s")
  have upd: "(x\<lparr>transcriptionCache := c\<rparr>)\<lparr>contexts := y\<rparr> = (x\<lparr>contexts := y\<rparr>)\<lparr>transcriptionCache := c\<rparr>"
    for x :: state and y
    by simp
  from assms rt show ?thesis
    by (simp add: transcribe_native_def run_timeline_cache Let_def run_deferred_cache upd
        del: state.update_convs)
qed

text \<open>
  C7. A call with a translation target leaves the transcription cache as it is, and
  the cache's contents do not influence it: with any other cache \<open>c\<close> in place, the
  call returns the same result and the same effects, and the same state but for
  \<open>c\<close>.
\<close>

theorem translation_bypasses_cache:
  assumes "translateTo \<noteq> []"
    and "TranscribeWithTranslation ev e audioPath modelID cpuThreads translateTo progressCb
           segmentCb s = (res, s', tr)"
  shows "transcriptionCache s' = transcriptionCache s
       \<and> TranscribeWithTranslation ev e audioPath modelID cpuThreads translateTo progressCb
           segmentCb (s\<lparr>transcriptionCache := c\<rparr>) = (res, s'\<lparr>transcriptionCache := c\<rparr>, tr)"
proof
  from assms(2) show "transcriptionCache s' = transcriptionCache s"
  proof (cases rule: TranscribeWithTranslation_cases)
    case early
    from transcribe_setup_Return [OF early] show ?thesis by simp
  next
    case (native ne s1 tr1 tr2)
    from transcribe_setup_Enter [OF native(1)]
    have a: "transcriptionCache s1 = transcriptionCache s" by simp
    let ?run = "whisper_full ev (ne_ctx ne) (ne_params ne) (ne_samples ne)"
    from transcribe_native_result [OF native(2)] assms(1)
    have "transcriptionCache s' = transcriptionCache s1"
      by (cases "status ?run = 0") simp_all
    with a show ?thesis by simp
  qed
next
  from assms(2) show "TranscribeWithTranslation ev e audioPath modelID cpuThreads translateTo
      progressCb segmentCb (s\<lparr>transcriptionCache := c\<rparr>) = (res, s'\<lparr>transcriptionCache := c\<rparr>, tr)"
  proof (cases rule: TranscribeWithTranslation_cases)
    case early
    then show ?thesis
      by (simp add: TranscribeWithTranslation_def transcribe_setup_cache [OF assms(1)])
  next
    case (native ne s1 tr1 tr2)
    then show ?thesis
      by (simp add: TranscribeWithTranslation_def transcribe_setup_cache [OF assms(1)]
          transcribe_native_cache [OF assms(1)])
  qed
qed

theorem translation_bypasses_cache_witness:
  "''en'' \<noteq> []
   \<and> transcriptionCache (fst (snd (demo_call 4 ''en''))) = transcriptionCache demo_state
   \<and> TranscribeWithTranslation demo_env demo_engine ''a.wav'' ''turbo'' 4 ''en'' (Some 5) (Some 7)
        (demo_state\<lparr>transcriptionCache := [(''a.wav'', ''turbo'') \<mapsto> []]\<rparr>)
      = (fst (demo_call 4 ''en''),
         (fst (snd (demo_call 4 ''en'')))\<lparr>transcriptionCache := [(''a.wav'', ''turbo'') \<mapsto> []]\<rparr>,
         snd (snd (demo_call 4 ''en'')))"
proof -
  have ne: "''en'' \<noteq> []" by simp
  from translation_bypasses_cache [OF ne demo_call_eq [of 4 "''en''"],
      of "[(''a.wav'', ''turbo'') \<mapsto> []]"] ne
  show ?thesis by simp
qed

section \<open>Speaker ids\<close>

lemma extract_length: "length (extract_segments ev raw i sp) = length raw - i"
proof (induction ev raw i sp rule: extract_segments.induct)
  case (1 ev raw i sp)
  show ?case
  proof (cases "i < length raw")
    case True
    with 1 show ?thesis
      by (subst extract_segments.simps) (simp add: Let_def Suc_diff_Suc)
  next
    case False
    then show ?thesis by (subst extract_segments.simps) simp
  qed
qed

lemma extract_hd:
  "i < length raw \<Longrightarrow>
   Speaker (extract_segments ev raw i sp ! 0)
     = (if i > 0 \<and> speaker_turn_next (raw ! (i - 1)) then sp + 1 else sp)"
  by (subst extract_segments.simps) (simp add: Let_def)

lemma extract_step:
  "i + Suc k < length raw \<Longrightarrow>
   Speaker (extract_segments ev raw i sp ! Suc k)
     = Speaker (extract_segments ev raw i sp ! k)
       + (if speaker_turn_next (raw ! (i + k)) then 1 else 0)"
proof (induction ev raw i sp arbitrary: k rule: extract_segments.induct)
  case (1 ev raw i sp)
  let ?sp' = "if i > 0 \<and> speaker_turn_next (raw ! (i - 1)) then sp + 1 else sp"
  from "1.prems" have lt: "i < length raw" by simp
  have unfold: "extract_segments ev raw i sp ! Suc j = extract_segments ev raw (i + 1) ?sp' ! j" for j
    using lt by (subst extract_segments.simps) (simp add: Let_def)
  show ?case
  proof (cases k)
    case 0
    from "1.prems" 0 have "i + 1 < length raw" by simp
    from extract_hd [OF this, of ev ?sp'] extract_hd [OF lt, of ev sp] 0 show ?thesis
      by (simp add: unfold)
  next
    case (Suc k')
    with "1.prems" have "i + 1 + Suc k' < length raw" by simp
    from "1.IH" [OF lt refl refl this] Suc show ?thesis
      by (simp add: unfold)
  qed
qed

lemma extract_speakers_follow: "speakers_follow raw (extract_segments ev raw 0 0)"
  unfolding speakers_follow_def
proof (intro conjI impI allI)
  show "length (extract_segments ev raw 0 0) = length raw"
    by (simp add: extract_length)
next
  assume "extract_segments ev raw 0 0 \<noteq> []"
  then have "0 < length raw"
    using extract_length [of ev raw 0 0] by (cases raw) auto
  from extract_hd [OF this, of ev 0] show "Speaker (extract_segments ev raw 0 0 ! 0) = 0"
    by simp
next
  fix i
  assume "Suc i < length (extract_segments ev raw 0 0)"
  then have "0 + Suc i < length raw" by (simp add: extract_length)
  from extract_step [OF this, of ev 0]
  show "Speaker (extract_segments ev raw 0 0 ! Suc i)
      = Speaker (extract_segments ev raw 0 0 ! i) + (if speaker_turn_next (raw ! i) then 1 else 0)"
    by simp
qed

lemma speakers_follow_sorted:
  assumes "speakers_follow raw L"
  shows "sorted (map Speaker L)"
proof -
  have "map Speaker L ! i \<le> map Speaker L ! Suc i" if "Suc i < length (map Speaker L)" for i
    using that assms by (simp add: speakers_follow_def)
  then show ?thesis
    by (simp add: sorted_iff_nth_Suc)
qed

lemma NewWhisperCGOEngine_cache:
  "NewWhisperCGOEngine ev path s = (r, s') \<Longrightarrow> transcriptionCache s' = transcriptionCache s"
  by (auto simp: NewWhisperCGOEngine_def engine_load_def engine_insert_def alloc_def Let_def
      split: option.splits if_splits sum.splits prod.splits)

lemma TranscribeWithTranslation_cache:
  assumes "TranscribeWithTranslation ev e audioPath modelID cpuThreads translateTo progressCb
             segmentCb s = (res, s', tr)"
  shows "transcriptionCache s' = transcriptionCache s
       \<or> (\<exists>c params samples. transcriptionCache s' = (transcriptionCache s)((audioPath, modelID) \<mapsto>
              extract_segments ev (produced (whisper_full ev c params samples)) 0 0))"
  using assms
proof (cases rule: TranscribeWithTranslation_cases)
  case early
  from transcribe_setup_Return [OF early] show ?thesis by simp
next
  case (native ne s1 tr1 tr2)
  from transcribe_setup_Enter [OF native(1)]
  have a: "transcriptionCache s1 = transcriptionCache s" by simp
  let ?run = "whisper_full ev (ne_ctx ne) (ne_params ne) (ne_samples ne)"
  from transcribe_native_result [OF native(2)]
  have "transcriptionCache s' = transcriptionCache s1
      \<or> transcriptionCache s' = (transcriptionCache s1)((audioPath, modelID) \<mapsto>
              extract_segments ev (produced ?run) 0 0)"
    by (cases "status ?run = 0"; cases "translateTo = []") simp_all
  with a show ?thesis by auto
qed

lemma reachable_cache_produced: "reachable ev s \<Longrightarrow> cache_produced ev s"
proof (induction rule: reachable.induct)
  case (initial fs)
  show ?case by (simp add: cache_produced_def init_state_def)
next
  case (new_engine s path r s')
  with NewWhisperCGOEngine_cache [OF new_engine.hyps(2)] show ?case
    by (simp add: cache_produced_def)
next
  case (transcribe s e audioPath modelID cpuThreads translateTo progressCb segmentCb r s' tr)
  from TranscribeWithTranslation_cache [OF transcribe.hyps(2)] transcribe.IH show ?case
    unfolding cache_produced_def by (fastforce split: if_splits)
next
  case (file_system s fs)
  then show ?case by (simp add: cache_produced_def)
qed

text \<open>
  C6. In every reachable state, the list a successful call returns is the extraction of
  what a native call produced (the call's own, if it made one; with a cache hit, the
  one that filled the cache): it has one segment per produced segment, the first
  speaker id is 0, the ids never decrease, and the id of segment \<open>i + 1\<close> is that of
  segment \<open>i\<close> plus one exactly when the engine flagged a turn after segment \<open>i\<close>.
\<close>

theorem speaker_monotonicity:
  assumes "reachable ev s"
    and "TranscribeWithTranslation ev e audioPath modelID cpuThreads translateTo progressCb
           segmentCb s = (Inr L, s', tr)"
  shows "\<exists>c params samples.
           (\<forall>x\<in>set tr. is_NativeCall x \<longrightarrow> x = NativeCall c params samples)
           \<and> length L = length (produced (whisper_full ev c params samples))
           \<and> (L \<noteq> [] \<longrightarrow> Speaker (L ! 0) = 0)
           \<and> sorted (map Speaker L)
           \<and> (\<forall>i. Suc i < length L \<longrightarrow>
                 Speaker (L ! Suc i)
                   = Speaker (L ! i)
                     + (if speaker_turn_next (produced (whisper_full ev c params samples) ! i)
                        then 1 else 0))"
proof -
  have "\<exists>c params samples.
           (\<forall>x\<in>set tr. is_NativeCall x \<longrightarrow> x = NativeCall c params samples)
           \<and> L = extract_segments ev (produced (whisper_full ev c params samples)) 0 0"
    using assms(2)
  proof (cases rule: TranscribeWithTranslation_cases)
    case early
    from transcribe_setup_Return [OF early]
    have hit: "transcriptionCache s (audioPath, modelID) = Some L"
      and nn: "\<forall>x\<in>set tr. \<not> is_NativeCall x"
      by simp_all
    from reachable_cache_produced [OF assms(1)] hit obtain c params samples
      where "L = extract_segments ev (produced (whisper_full ev c params samples)) 0 0"
      unfolding cache_produced_def by blast
    with nn show ?thesis by blast
  next
    case (native ne s1 tr1 tr2)
    let ?run = "whisper_full ev (ne_ctx ne) (ne_params ne) (ne_samples ne)"
    note tn = transcribe_native_result [OF native(2)]
    from tn have "status ?run = 0"
      by (cases "status ?run = 0") simp_all
    with tn have L: "L = extract_segments ev (produced ?run) 0 0" by simp
    from transcribe_setup_Enter [OF native(1)] have "\<forall>x\<in>set tr1. \<not> is_NativeCall x"
      by simp
    moreover from tn have "\<forall>x\<in>set tr2. is_NativeCall x \<longrightarrow>
        x = NativeCall (ne_ctx ne) (ne_params ne) (ne_samples ne)"
      by blast
    ultimately have "\<forall>x\<in>set tr. is_NativeCall x \<longrightarrow>
        x = NativeCall (ne_ctx ne) (ne_params ne) (ne_samples ne)"
      unfolding native(3) by auto
    with L show ?thesis by blast
  qed
  then obtain c params samples
    where nc: "\<forall>x\<in>set tr. is_NativeCall x \<longrightarrow> x = NativeCall c params samples"
      and L: "L = extract_segments ev (produced (whisper_full ev c params samples)) 0 0"
    by blast
  let ?raw = "produced (whisper_full ev c params samples)"
  have sf: "speakers_follow ?raw L"
    unfolding L by (rule extract_speakers_follow)
  from sf have 1: "length L = length ?raw"
    and 2: "L \<noteq> [] \<longrightarrow> Speaker (L ! 0) = 0"
    and 4: "\<forall>i. Suc i < length L \<longrightarrow>
                 Speaker (L ! Suc i)
                   = Speaker (L ! i) + (if speaker_turn_next (?raw ! i) then 1 else 0)"
    by (simp_all add: speakers_follow_def)
  from speakers_follow_sorted [OF sf] have 3: "sorted (map Speaker L)" .
  from nc 1 2 3 4 show ?thesis by blast
qed

theorem speaker_monotonicity_witness:
  "reachable demo_env demo_state
   \<and> fst (demo_call 4 []) = Inr demo_segments
   \<and> map Speaker demo_segments = [0, 1, 1]
   \<and> map speaker_turn_next demo_raw = [True, False, True]
   \<and> (\<exists>c params samples.
           (\<forall>x\<in>set (snd (snd (demo_call 4 []))). is_NativeCall x \<longrightarrow> x = NativeCall c params samples)
           \<and> length demo_segments = length (produced (whisper_full demo_env c params samples))
           \<and> sorted (map Speaker demo_segments)
           \<and> (\<forall>i. Suc i < length demo_segments \<longrightarrow>
                 Speaker (demo_segments ! Suc i)
                   = Speaker (demo_segments ! i)
                     + (if speaker_turn_next (produced (whisper_full demo_env c params samples) ! i)
                        then 1 else 0)))"
proof -
  have h: "TranscribeWithTranslation demo_env demo_engine ''a.wav'' ''turbo'' 4 [] (Some 5)
      (Some 7) demo_state = (Inr demo_segments, fst (snd (demo_call 4 [])), snd (snd (demo_call 4 [])))"
    using demo_call_eq [of 4 "[]"] by (simp add: demo_call_ok(1))
  have m: "map Speaker demo_segments = [0, 1, 1]"
    "map speaker_turn_next demo_raw = [True, False, True]"
    by (simp_all add: demo_segments_def demo_raw_def)
  from speaker_monotonicity [OF demo_reachable h] demo_reachable demo_call_ok(1) m
  show ?thesis by blast
qed

end
